theory Spec2Isabelle
  imports Complex_Main
begin

section \<open>The agent of DeepQResNet.py: data\<close>

text \<open>
  The class \<open>DQN\<close> of \<open>src/DeepQResNet.py\<close> keeps a replay buffer (a Python list of
  seven-element transitions), a visit-count table (a 15 x 15 grid of dictionaries from
  fingerprint to count) and two Keras networks. The networks, \<open>hashlib.md5\<close>, the
  random number generator and the environment are external to the file; they enter the
  model as parameters. Network outputs, rewards and \<open>gamma\<close> are numbers of the reals:
  the rounding of the floating-point arithmetic is outside this model.
\<close>

datatype py_error = IndexError | ValueError

text \<open>
  A state is a two-dimensional array of integer cell codes, a list of rows. The code
  stacks states with \<open>np.array\<close> and calls \<open>state.reshape\<close>, so they are numpy arrays.
\<close>

type_synonym state = "int list list"

record transition =
  t_state :: state
  t_action :: int
  t_reward :: real
  t_next_state :: state
  t_done :: bool
  t_valid_actions :: "int list"
  t_turn :: real

type_synonym table = "(string \<rightharpoonup> nat) list list"

record 'net dqn =
  batch_size :: int
  gamma :: real
  model :: 'net
  target_model :: 'net
  hashtable :: table
  maxBufferSize :: int
  replay_buffer :: "transition list"

section \<open>Fingerprints: \<open>_Gethash\<close>\<close>

text \<open>Python's \<open>str\<close> on an integer: decimal digits, with a minus sign when negative.\<close>

fun str_nat :: "nat \<Rightarrow> string" where
  "str_nat n =
     (if n < 10 then [''0123456789'' ! n]
      else str_nat (n div 10) @ [''0123456789'' ! (n mod 10)])"

declare str_nat.simps [simp del]

definition str_int :: "int \<Rightarrow> string" where
  "str_int i = (if i < 0 then CHR ''-'' # str_nat (nat (- i)) else str_nat (nat i))"

definition rjust :: "nat \<Rightarrow> string \<Rightarrow> string" where
  "rjust w s = replicate (w - length s) CHR '' '' @ s"

fun join :: "string \<Rightarrow> string list \<Rightarrow> string" where
  "join sep [] = []"
| "join sep [s] = s"
| "join sep (s # t # ss) = s @ sep @ join sep (t # ss)"

text \<open>
  \<open>str\<close> on a row of the state, a one-dimensional numpy integer array: the elements in
  decimal, each right-justified to the width of the longest one, separated by one space,
  in square brackets (the rendering of a row short enough for one line, as a row of
  eight cells is).
\<close>

definition np_str_row :: "int list \<Rightarrow> string" where
  "np_str_row xs =
     (let ss = map str_int xs; w = fold max (map length ss) 0
      in ''['' @ join '' '' (map (rjust w) ss) @ '']'')"

text \<open>
  \<open>combined_string = ''.join(map(str, state))\<close>: \<open>map\<close> iterates over the first axis of
  the array, so \<open>str\<close> is applied to each row.
\<close>

definition combined_string :: "state \<Rightarrow> string" where
  "combined_string st = concat (map np_str_row st)"

text \<open>
  \<open>H\<close> stands for \<open>\<lambda>s. hashlib.md5(s.encode()).hexdigest()\<close>. Its contract is that the
  digest is a string of 32 lower-case hexadecimal digits.
\<close>

definition Gethash :: "(string \<Rightarrow> string) \<Rightarrow> state \<Rightarrow> string" where
  "Gethash H st = H (combined_string st)"

definition hexchar :: "char \<Rightarrow> bool" where
  "hexchar c = (c \<in> set ''0123456789abcdef'')"

definition is_hexdigest :: "string \<Rightarrow> bool" where
  "is_hexdigest h = (length h = 32 \<and> list_all hexchar h)"

definition md5_contract :: "(string \<Rightarrow> string) \<Rightarrow> bool" where
  "md5_contract H = (\<forall>s. is_hexdigest (H s))"

section \<open>The visit-count table: \<open>GetCount\<close> and \<open>_InsertHashTable\<close>\<close>

text \<open>
  \<open>int(s, 16)\<close> on a string of hexadecimal digits; the empty string and a string with
  another character raise ValueError. (Python also reads a sign, a \<open>0x\<close> prefix,
  underscores and surrounding blanks; a hexadecimal digest has none of them.)
\<close>

definition hex_digit :: "char \<Rightarrow> nat option" where
  "hex_digit c =
     (if c \<in> set ''0123456789'' then Some (of_char c - 48)
      else if c \<in> set ''abcdef'' then Some (of_char c - 87)
      else if c \<in> set ''ABCDEF'' then Some (of_char c - 55)
      else None)"

fun int16_from :: "int \<Rightarrow> string \<Rightarrow> py_error + int" where
  "int16_from acc [] = Inr acc"
| "int16_from acc (c # cs) =
     (case hex_digit c of
        None \<Rightarrow> Inl ValueError
      | Some d \<Rightarrow> int16_from (16 * acc + int d) cs)"

definition int16 :: "string \<Rightarrow> py_error + int" where
  "int16 s = (if s = [] then Inl ValueError else int16_from 0 s)"

text \<open>
  The bucket coordinates of a fingerprint, lines 130-134 and again 154-158:
  the two halves of the string, each read in base 16, modulo 10.
\<close>

definition bucket :: "string \<Rightarrow> py_error + nat \<times> nat" where
  "bucket hash_value =
     (let half_length = length hash_value div 2;
          first_half = take half_length hash_value;
          second_half = drop half_length hash_value
      in case int16 first_half of
           Inl e \<Rightarrow> Inl e
         | Inr r \<Rightarrow>
             (case int16 second_half of
                Inl e \<Rightarrow> Inl e
              | Inr c \<Rightarrow> Inr (nat (r mod 10), nat (c mod 10))))"

text \<open>\<open>[[{} for _ in range(15)] for _ in range(15)]\<close>\<close>

definition init_hashtable :: table where
  "init_hashtable = replicate 15 (replicate 15 Map.empty)"

text \<open>\<open>self.hashtable[row][col]\<close>: an index past the end of a list raises IndexError.\<close>

definition bucket_at :: "table \<Rightarrow> nat \<Rightarrow> nat \<Rightarrow> py_error + (string \<rightharpoonup> nat)" where
  "bucket_at tbl row col =
     (if row < length tbl \<and> col < length (tbl ! row) then Inr (tbl ! row ! col)
      else Inl IndexError)"

definition GetCount :: "(string \<Rightarrow> string) \<Rightarrow> table \<Rightarrow> state \<Rightarrow> py_error + nat" where
  "GetCount H tbl st =
     (let hash_value = Gethash H st
      in case bucket hash_value of
           Inl e \<Rightarrow> Inl e
         | Inr (row, col) \<Rightarrow>
             (case bucket_at tbl row col of
                Inl e \<Rightarrow> Inl e
              | Inr b \<Rightarrow>
                  (case b hash_value of
                     None \<Rightarrow> Inr 0
                   | Some n \<Rightarrow> Inr n)))"

definition InsertHashTable :: "(string \<Rightarrow> string) \<Rightarrow> table \<Rightarrow> state \<Rightarrow> py_error + table" where
  "InsertHashTable H tbl st =
     (let hash_value = Gethash H st
      in case bucket hash_value of
           Inl e \<Rightarrow> Inl e
         | Inr (row, col) \<Rightarrow>
             (case bucket_at tbl row col of
                Inl e \<Rightarrow> Inl e
              | Inr b \<Rightarrow>
                  (case b hash_value of
                     None \<Rightarrow> Inr (tbl[row := (tbl ! row)[col := b(hash_value \<mapsto> 1)]])
                   | Some n \<Rightarrow> Inr (tbl[row := (tbl ! row)[col := b(hash_value \<mapsto> n + 1)]]))))"


text \<open>The table as constructed: 15 rows of 15 buckets.\<close>

definition grid15 :: "table \<Rightarrow> bool" where
  "grid15 tbl = (length tbl = 15 \<and> list_all (\<lambda>row. length row = 15) tbl)"

text \<open>The count a table stores for a fingerprint, absence being 0 (used in statements only).\<close>

definition stored :: "table \<Rightarrow> string \<Rightarrow> nat" where
  "stored tbl h =
     (case bucket h of
        Inl e \<Rightarrow> 0
      | Inr (row, col) \<Rightarrow> (case (tbl ! row ! col) h of None \<Rightarrow> 0 | Some n \<Rightarrow> n))"

text \<open>Successive \<open>record\<close> calls, as the loop of \<open>train\<close> makes them; the first error stops.\<close>

fun InsertHashTable_all :: "(string \<Rightarrow> string) \<Rightarrow> table \<Rightarrow> state list \<Rightarrow> py_error + table" where
  "InsertHashTable_all H tbl [] = Inr tbl"
| "InsertHashTable_all H tbl (st # sts) =
     (case InsertHashTable H tbl st of
        Inl e \<Rightarrow> Inl e
      | Inr tbl' \<Rightarrow> InsertHashTable_all H tbl' sts)"

section \<open>The replay buffer: \<open>InsertBuffer\<close> and \<open>flush\<close>\<close>

text \<open>
  \<open>pop(0)\<close> on an empty list raises IndexError; that needs a negative
  \<open>maxBufferSize\<close>.
\<close>

definition InsertBuffer ::
  "'net dqn \<Rightarrow> state \<Rightarrow> int \<Rightarrow> real \<Rightarrow> state \<Rightarrow> bool \<Rightarrow> int list \<Rightarrow> real \<Rightarrow> py_error + 'net dqn" where
  "InsertBuffer s state action reward next_states done valid_actions turns =
     (let tr = \<lparr>t_state = state, t_action = action, t_reward = reward,
                t_next_state = next_states, t_done = done,
                t_valid_actions = valid_actions, t_turn = turns\<rparr>
      in if int (length (replay_buffer s)) > maxBufferSize s then
           (case replay_buffer s of
              [] \<Rightarrow> Inl IndexError
            | x # rest \<Rightarrow> Inr (s\<lparr>replay_buffer := rest @ [tr]\<rparr>))
         else Inr (s\<lparr>replay_buffer := replay_buffer s @ [tr]\<rparr>))"

definition insert_transition :: "'net dqn \<Rightarrow> transition \<Rightarrow> py_error + 'net dqn" where
  "insert_transition s tr =
     InsertBuffer s (t_state tr) (t_action tr) (t_reward tr) (t_next_state tr)
       (t_done tr) (t_valid_actions tr) (t_turn tr)"

text \<open>A caller inserting transitions one after the other, with no other call between.\<close>

fun InsertBuffer_all :: "'net dqn \<Rightarrow> transition list \<Rightarrow> py_error + 'net dqn" where
  "InsertBuffer_all s [] = Inr s"
| "InsertBuffer_all s (tr # trs) =
     (case insert_transition s tr of
        Inl e \<Rightarrow> Inl e
      | Inr s' \<Rightarrow> InsertBuffer_all s' trs)"

definition flush :: "'net dqn \<Rightarrow> transition list \<times> 'net dqn" where
  "flush s = (replay_buffer s, s\<lparr>replay_buffer := []\<rparr>)"

definition update_target_model :: "'net dqn \<Rightarrow> 'net dqn" where
  "update_target_model s = s\<lparr>target_model := model s\<rparr>"

section \<open>The networks and numpy\<close>

text \<open>
  \<open>q net state turn\<close> is the vector of action values that the Keras network with
  parameters \<open>net\<close> predicts for one sample (the reshape to 8 x 8 x 1 is part of it);
  \<open>predict\<close> on a batch gives one row for each sample.
\<close>

definition predict ::
  "('net \<Rightarrow> state \<Rightarrow> real \<Rightarrow> real list) \<Rightarrow> 'net \<Rightarrow> state list \<Rightarrow> real list \<Rightarrow> real list list" where
  "predict q net states turns = map (\<lambda>(st, t). q net st t) (zip states turns)"

text \<open>
  An index into a numpy axis of length \<open>n\<close>: negative indices count from the end, and
  an index outside \<open>[-n, n)\<close> raises IndexError.
\<close>

definition np_index :: "nat \<Rightarrow> int \<Rightarrow> py_error + nat" where
  "np_index n a =
     (if 0 \<le> a \<and> a < int n then Inr (nat a)
      else if - int n \<le> a \<and> a < 0 then Inr (nat (a + int n))
      else Inl IndexError)"

text \<open>\<open>row[valid_action]\<close>: the entries of the row at a list of indices, in the list's order.\<close>

fun take_indices :: "real list \<Rightarrow> int list \<Rightarrow> py_error + real list" where
  "take_indices row [] = Inr []"
| "take_indices row (a # as) =
     (case np_index (length row) a of
        Inl e \<Rightarrow> Inl e
      | Inr j \<Rightarrow>
          (case take_indices row as of
             Inl e \<Rightarrow> Inl e
           | Inr vs \<Rightarrow> Inr (row ! j # vs)))"

text \<open>\<open>np.amax\<close> of a one-dimensional array; of an empty one it raises ValueError.\<close>

definition amax :: "real list \<Rightarrow> py_error + real" where
  "amax vs = (case vs of [] \<Rightarrow> Inl ValueError | v # rest \<Rightarrow> Inr (fold max rest v))"

text \<open>
  \<open>np.argmax\<close> of a one-dimensional array: the first index of the largest entry; of an
  empty array it raises ValueError.
\<close>

fun argmax_from :: "nat \<Rightarrow> real \<Rightarrow> nat \<Rightarrow> real list \<Rightarrow> nat" where
  "argmax_from best bv i [] = best"
| "argmax_from best bv i (x # xs) =
     (if bv < x then argmax_from i x (Suc i) xs else argmax_from best bv (Suc i) xs)"

definition argmax :: "real list \<Rightarrow> py_error + nat" where
  "argmax vs = (case vs of [] \<Rightarrow> Inl ValueError | v # rest \<Rightarrow> Inr (argmax_from 0 v 1 rest))"

text \<open>\<open>xs[j]\<close> on a Python list with a non-negative index.\<close>

definition list_item :: "'a list \<Rightarrow> nat \<Rightarrow> py_error + 'a" where
  "list_item xs j = (if j < length xs then Inr (xs ! j) else Inl IndexError)"

section \<open>The training step: \<open>train\<close>\<close>

text \<open>
  The right-hand side of lines 97 and 99 for one transition, given the row of \<open>Qvalue\<close>
  that belongs to it.
\<close>

definition target_value :: "real \<Rightarrow> transition \<Rightarrow> real list \<Rightarrow> py_error + real" where
  "target_value g tr qrow =
     (if t_done tr then Inr (t_reward tr / 100)
      else
        (case take_indices qrow (t_valid_actions tr) of
           Inl e \<Rightarrow> Inl e
         | Inr vs \<Rightarrow>
             (case amax vs of
                Inl e \<Rightarrow> Inl e
              | Inr m \<Rightarrow> Inr (t_reward tr / 100 + g * m))))"

text \<open>
  The loop of lines 95-100 over the indices \<open>i\<close> of the batch: the value is computed,
  stored in \<open>target[i][actions[i]]\<close>, and the state is recorded in the visit-count table.
  An exception leaves the loop.
\<close>

fun train_loop ::
  "(string \<Rightarrow> string) \<Rightarrow> real \<Rightarrow> transition list \<Rightarrow> real list list \<Rightarrow> nat list \<Rightarrow>
   real list list \<Rightarrow> table \<Rightarrow> py_error + real list list \<times> table" where
  "train_loop H g minibatch Qvalue [] target tbl = Inr (target, tbl)"
| "train_loop H g minibatch Qvalue (i # is) target tbl =
     (case target_value g (minibatch ! i) (Qvalue ! i) of
        Inl e \<Rightarrow> Inl e
      | Inr v \<Rightarrow>
          (case np_index (length (target ! i)) (t_action (minibatch ! i)) of
             Inl e \<Rightarrow> Inl e
           | Inr j \<Rightarrow>
               (case InsertHashTable H tbl (t_state (minibatch ! i)) of
                  Inl e \<Rightarrow> Inl e
                | Inr tbl' \<Rightarrow>
                    train_loop H g minibatch Qvalue is
                      (target[i := (target ! i)[j := v]]) tbl')))"

text \<open>\<open>del xs[index]\<close>, and the loop of lines 102-103 over the indices it is given.\<close>

definition del_item :: "nat \<Rightarrow> 'a list \<Rightarrow> py_error + 'a list" where
  "del_item i xs = (if i < length xs then Inr (take i xs @ drop (Suc i) xs) else Inl IndexError)"

fun del_items :: "nat list \<Rightarrow> 'a list \<Rightarrow> py_error + 'a list" where
  "del_items [] xs = Inr xs"
| "del_items (i # is) xs =
     (case del_item i xs of
        Inl e \<Rightarrow> Inl e
      | Inr xs' \<Rightarrow> del_items is xs')"

text \<open>
  The contract of \<open>random.sample(range(n), k)\<close>: a list of \<open>k\<close> distinct indices below
  \<open>n\<close>. Which list it is, is the random generator's choice.
\<close>

definition is_sample :: "nat \<Rightarrow> nat \<Rightarrow> nat list \<Rightarrow> bool" where
  "is_sample n k idxs = (length idxs = k \<and> distinct idxs \<and> list_all (\<lambda>i. i < n) idxs)"

text \<open>
  \<open>train\<close>, with the list \<open>minibatch_indices\<close> that \<open>random.sample\<close> returned as an
  argument. \<open>tob net states turns target\<close> is \<open>train_on_batch\<close>: the parameters after
  the gradient step and the loss. The result is the returned value (\<open>None\<close> when the
  buffer is too small) and the agent afterwards. \<open>random.sample\<close> raises ValueError for
  a negative sample size.
\<close>

definition train ::
  "('net \<Rightarrow> state \<Rightarrow> real \<Rightarrow> real list) \<Rightarrow>
   ('net \<Rightarrow> state list \<Rightarrow> real list \<Rightarrow> real list list \<Rightarrow> 'net \<times> real) \<Rightarrow>
   (string \<Rightarrow> string) \<Rightarrow> nat list \<Rightarrow> 'net dqn \<Rightarrow> py_error + real option \<times> 'net dqn" where
  "train q tob H minibatch_indices s =
     (if int (length (replay_buffer s)) < batch_size s then Inr (None, s)
      else if batch_size s < 0 then Inl ValueError
      else
        (let minibatch = map (\<lambda>i. replay_buffer s ! i) minibatch_indices;
             states = map t_state minibatch;
             next_states = map t_next_state minibatch;
             turns = map t_turn minibatch;
             target = predict q (model s) states turns;
             Qvalue = predict q (target_model s) next_states turns
         in case train_loop H (gamma s) minibatch Qvalue [0..<nat (batch_size s)]
                   target (hashtable s) of
              Inl e \<Rightarrow> Inl e
            | Inr (target', tbl') \<Rightarrow>
                (case tob (model s) states turns target' of
                   (net', loss) \<Rightarrow>
                     (case del_items (rev (sort minibatch_indices)) (replay_buffer s) of
                        Inl e \<Rightarrow> Inl e
                      | Inr buffer' \<Rightarrow>
                          Inr (Some loss,
                               s\<lparr>model := net', hashtable := tbl',
                                 replay_buffer := buffer'\<rparr>)))))"

section \<open>The policies: \<open>BehaviorPolicy\<close> and \<open>EstimatePolicy\<close>\<close>

text \<open>
  What a policy returns: one action, or the result of \<open>random.choice\<close> on a list, a
  uniform draw from it.
\<close>

datatype 'a choice = Exactly 'a | Uniform "'a list"

fun outcomes :: "'a choice \<Rightarrow> 'a set" where
  "outcomes (Exactly a) = {a}"
| "outcomes (Uniform xs) = set xs"

text \<open>The loop of lines 109-110.\<close>

fun counts :: "(string \<Rightarrow> string) \<Rightarrow> table \<Rightarrow> state list \<Rightarrow> py_error + nat list" where
  "counts H tbl [] = Inr []"
| "counts H tbl (st # sts) =
     (case GetCount H tbl st of
        Inl e \<Rightarrow> Inl e
      | Inr c \<Rightarrow>
          (case counts H tbl sts of
             Inl e \<Rightarrow> Inl e
           | Inr cs \<Rightarrow> Inr (c # cs)))"

definition uct :: "nat list \<Rightarrow> real \<Rightarrow> nat \<Rightarrow> real" where
  "uct count qv c = qv + sqrt (2 * ln (real (sum_list count)) / (1 + real c))"

text \<open>
  \<open>simulateNextState\<close> is the environment's method. \<open>random.choice\<close> of an empty list
  raises IndexError.
\<close>

definition BehaviorPolicy ::
  "('net \<Rightarrow> state \<Rightarrow> real \<Rightarrow> real list) \<Rightarrow> (string \<Rightarrow> string) \<Rightarrow> 'net dqn \<Rightarrow>
   (int \<Rightarrow> state) \<Rightarrow> state \<Rightarrow> real \<Rightarrow> int list \<Rightarrow> py_error + int choice" where
  "BehaviorPolicy q H s simulateNextState state turn valid_action =
     (case take_indices (predict q (target_model s) [state] [turn] ! 0) valid_action of
        Inl e \<Rightarrow> Inl e
      | Inr q_values \<Rightarrow>
          (case counts H (hashtable s) (map simulateNextState valid_action) of
             Inl e \<Rightarrow> Inl e
           | Inr count \<Rightarrow>
               if sum_list count = 0 then
                 (if valid_action = [] then Inl IndexError else Inr (Uniform valid_action))
               else
                 (let uct_values = map (\<lambda>(qv, c). uct count qv c) (zip q_values count)
                  in case argmax uct_values of
                       Inl e \<Rightarrow> Inl e
                     | Inr j \<Rightarrow>
                         (case list_item valid_action j of
                            Inl e \<Rightarrow> Inl e
                          | Inr a \<Rightarrow> Inr (Exactly a)))))"

text \<open>\<open>mask[valid_action] = True\<close>\<close>

fun set_mask :: "bool list \<Rightarrow> int list \<Rightarrow> py_error + bool list" where
  "set_mask msk [] = Inr msk"
| "set_mask msk (a # as) =
     (case np_index (length msk) a of
        Inl e \<Rightarrow> Inl e
      | Inr j \<Rightarrow> set_mask (msk[j := True]) as)"

text \<open>\<open>q_values[mask]\<close>: the entries where the mask is set, in the order of the array.\<close>

definition masked :: "real list \<Rightarrow> bool list \<Rightarrow> real list" where
  "masked q_values msk = map fst (filter snd (zip q_values msk))"

definition EstimatePolicy ::
  "('net \<Rightarrow> state \<Rightarrow> real \<Rightarrow> real list) \<Rightarrow> 'net dqn \<Rightarrow> state \<Rightarrow> real \<Rightarrow> int list \<Rightarrow>
   py_error + int" where
  "EstimatePolicy q s state turn valid_action =
     (let q_values = predict q (target_model s) [state] [turn] ! 0
      in case set_mask (replicate (length q_values) False) valid_action of
           Inl e \<Rightarrow> Inl e
         | Inr msk \<Rightarrow>
             (case argmax (masked q_values msk) of
                Inl e \<Rightarrow> Inl e
              | Inr j \<Rightarrow> list_item valid_action j))"

section \<open>Notions for the statements\<close>

text \<open>
  An index that numpy accepts on an axis of length \<open>n\<close>, the position it denotes, and
  the entry of a row at it.
\<close>

definition np_valid :: "nat \<Rightarrow> int \<Rightarrow> bool" where
  "np_valid n a = (- int n \<le> a \<and> a < int n)"

definition np_pos :: "nat \<Rightarrow> int \<Rightarrow> nat" where
  "np_pos n a = (if a < 0 then nat (a + int n) else nat a)"

definition np_item :: "real list \<Rightarrow> int \<Rightarrow> real" where
  "np_item row a = row ! np_pos (length row) a"

text \<open>
  The serialisation that joins the string of every single cell, row after row, with
  nothing between them.
\<close>

definition cell_string :: "state \<Rightarrow> string" where
  "cell_string st = concat (map str_int (concat st))"

text \<open>
  A transition that the loop of \<open>train\<close> can process: its action is an index of the
  action-value vector, and unless it is terminal its list of legal next actions is not
  empty (\<open>np.amax\<close> needs an entry) and holds such indices.
\<close>

definition transition_ok ::
  "('net \<Rightarrow> state \<Rightarrow> real \<Rightarrow> real list) \<Rightarrow> 'net dqn \<Rightarrow> transition \<Rightarrow> bool" where
  "transition_ok q s tr =
     (np_valid (length (q (model s) (t_state tr) (t_turn tr))) (t_action tr) \<and>
      (\<not> t_done tr \<longrightarrow>
         t_valid_actions tr \<noteq> [] \<and>
         list_all (np_valid (length (q (target_model s) (t_next_state tr) (t_turn tr))))
           (t_valid_actions tr)))"

section \<open>Concrete inputs\<close>

text \<open>
  A digest function within the contract, for evaluating the definitions: it tells
  strings apart by their length modulo 16.
\<close>

definition length_digest :: "string \<Rightarrow> string" where
  "length_digest x = replicate 31 CHR ''0'' @ [''0123456789abcdef'' ! (length x mod 16)]"

definition tr0 :: transition where
  "tr0 = \<lparr>t_state = [[0, 1], [2, 3]], t_action = 1, t_reward = 250,
          t_next_state = [[0, 1], [2, 0]], t_done = True,
          t_valid_actions = [], t_turn = 1\<rparr>"

definition tr1 :: transition where
  "tr1 = \<lparr>t_state = [[0, 1, 0], [2, 3, 0]], t_action = 0, t_reward = 0,
          t_next_state = [[0, 1], [2, 3]], t_done = False,
          t_valid_actions = [0, 2], t_turn = -1\<rparr>"

text \<open>A network whose parameters are the vector it predicts for every sample.\<close>

definition const_net :: "real list \<Rightarrow> state \<Rightarrow> real \<Rightarrow> real list" where
  "const_net net st t = net"

text \<open>A stand-in for \<open>train_on_batch\<close>: the parameters stay, the loss is 0.\<close>

definition tob0 :: "real list \<Rightarrow> state list \<Rightarrow> real list \<Rightarrow> real list list \<Rightarrow> real list \<times> real" where
  "tob0 net states turns target = (net, 0)"

definition agent0 :: "real list dqn" where
  "agent0 = \<lparr>batch_size = 2, gamma = 99 / 100, model = [1, 2, 3],
             target_model = [1 / 10, 9 / 10, 3 / 10], hashtable = init_hashtable,
             maxBufferSize = 1, replay_buffer = []\<rparr>"

text \<open>An 8 x 8 board with the four centre cells occupied.\<close>

definition board0 :: state where
  "board0 =
     [[0, 0, 0, 0, 0, 0, 0, 0], [0, 0, 0, 0, 0, 0, 0, 0], [0, 0, 0, 0, 0, 0, 0, 0],
      [0, 0, 0, 1, 2, 0, 0, 0], [0, 0, 0, 2, 1, 0, 0, 0], [0, 0, 0, 0, 0, 0, 0, 0],
      [0, 0, 0, 0, 0, 0, 0, 0], [0, 0, 0, 0, 0, 0, 0, 0]]"

text \<open>A stand-in for the environment's \<open>simulateNextState\<close>.\<close>

definition sim0 :: "int \<Rightarrow> state" where
  "sim0 a = [[a]]"

definition tr2 :: transition where
  "tr2 = \<lparr>t_state = [[1, 1], [2, 3]], t_action = 2, t_reward = -100,
          t_next_state = [[1, 1], [2, 2]], t_done = True,
          t_valid_actions = [], t_turn = 1\<rparr>"

text \<open>
  A second stand-in for \<open>train_on_batch\<close>, which shows the target matrix it is given:
  the new parameters are its rows, one after the other.
\<close>

definition tob1 :: "real list \<Rightarrow> state list \<Rightarrow> real list \<Rightarrow> real list list \<Rightarrow> real list \<times> real" where
  "tob1 net states turns target = (concat target, 0)"

text \<open>The agent with three transitions in the replay buffer.\<close>

definition agent1 :: "real list dqn" where
  "agent1 = agent0\<lparr>replay_buffer := [tr0, tr1, tr2]\<rparr>"

section \<open>Facts about fingerprints and buckets\<close>

lemma hex_digit_lower:
  "hexchar c \<Longrightarrow> \<exists>d. hex_digit c = Some d"
  by (auto simp: hex_digit_def hexchar_def)

lemma int16_from_hex:
  "list_all hexchar s \<Longrightarrow> \<exists>v. int16_from acc s = Inr v"
proof (induction s arbitrary: acc)
  case Nil
  then show ?case by simp
next
  case (Cons c cs)
  from Cons.prems have c: "hexchar c" and cs: "list_all hexchar cs"
    by simp_all
  from hex_digit_lower [OF c] obtain d where d: "hex_digit c = Some d" ..
  from Cons.IH [OF cs, of "16 * acc + int d"] d show ?case by simp
qed

lemma int16_hex:
  assumes "s \<noteq> []" and "list_all hexchar s"
  shows "\<exists>v. int16 s = Inr v"
  using assms int16_from_hex [of s 0] by (simp add: int16_def)

lemma list_all_take_drop:
  assumes "list_all P xs"
  shows "list_all P (take n xs)" and "list_all P (drop n xs)"
  using assms by (auto simp: list_all_iff dest: in_set_takeD in_set_dropD)

lemma bucket_range:
  assumes "bucket h = Inr (row, col)"
  shows "row \<le> 9 \<and> col \<le> 9"
proof -
  from assms obtain r c where rc: "row = nat (r mod 10)" "col = nat (c mod 10)"
    by (auto simp: bucket_def Let_def split: sum.splits)
  have "r mod 10 < 10" "c mod 10 < 10" by simp_all
  with rc show ?thesis by linarith
qed

lemma bucket_hexdigest:
  assumes "is_hexdigest h"
  shows "\<exists>row col. bucket h = Inr (row, col)"
proof -
  from assms have len: "length h = 32" and ok: "list_all hexchar h"
    by (simp_all add: is_hexdigest_def)
  have half: "length h div 2 = 16" using len by simp
  have "list_all hexchar (take 16 h)" "list_all hexchar (drop 16 h)"
    using list_all_take_drop [OF ok] by blast+
  moreover have "length (take 16 h) = 16" "length (drop 16 h) = 16"
    using len by simp_all
  then have "take 16 h \<noteq> []" "drop 16 h \<noteq> []"
    by fastforce+
  ultimately obtain r c where "int16 (take 16 h) = Inr r" "int16 (drop 16 h) = Inr c"
    using int16_hex by blast
  then show ?thesis
    unfolding bucket_def Let_def half by simp
qed

lemma grid15_access:
  assumes "grid15 tbl" and "row \<le> 9" and "col \<le> 9"
  shows "bucket_at tbl row col = Inr (tbl ! row ! col)"
proof -
  from assms have "row < length tbl" by (simp add: grid15_def)
  moreover from this assms have "length (tbl ! row) = 15"
    by (simp add: grid15_def list_all_length)
  ultimately show ?thesis using assms by (simp add: bucket_at_def)
qed

lemma grid15_update:
  assumes "grid15 tbl" and "row < 15"
  shows "grid15 (tbl[row := (tbl ! row)[col := b]])"
  using assms
  by (auto simp: grid15_def list_all_length nth_list_update)

lemma GetCount_stored:
  assumes "md5_contract H" and "grid15 tbl"
  shows "GetCount H tbl st = Inr (stored tbl (Gethash H st))"
proof -
  from assms(1) have "is_hexdigest (Gethash H st)"
    by (simp add: md5_contract_def Gethash_def)
  then obtain row col where b: "bucket (Gethash H st) = Inr (row, col)"
    using bucket_hexdigest by blast
  from bucket_range [OF b] grid15_access [OF assms(2)]
  have "bucket_at tbl row col = Inr (tbl ! row ! col)" by simp
  with b show ?thesis
    by (simp add: GetCount_def stored_def split: option.splits)
qed

lemma InsertHashTable_stored:
  assumes "md5_contract H" and "grid15 tbl"
  shows "\<exists>tbl'. InsertHashTable H tbl st = Inr tbl' \<and> grid15 tbl' \<and>
           (\<forall>h. is_hexdigest h \<longrightarrow>
              stored tbl' h = (if h = Gethash H st then stored tbl h + 1 else stored tbl h))"
proof -
  let ?h = "Gethash H st"
  from assms(1) have hd: "is_hexdigest ?h"
    by (simp add: md5_contract_def Gethash_def)
  then obtain row col where b: "bucket ?h = Inr (row, col)"
    using bucket_hexdigest by blast
  from bucket_range [OF b] have rc: "row \<le> 9" "col \<le> 9" by simp_all
  from grid15_access [OF assms(2) rc]
  have at: "bucket_at tbl row col = Inr (tbl ! row ! col)" .
  let ?b = "tbl ! row ! col"
  let ?n = "case ?b ?h of None \<Rightarrow> 1 | Some n \<Rightarrow> n + 1"
  let ?tbl' = "tbl[row := (tbl ! row)[col := ?b(?h \<mapsto> ?n)]]"
  have res: "InsertHashTable H tbl st = Inr ?tbl'"
    using b at by (simp add: InsertHashTable_def split: option.splits)
  have g: "grid15 ?tbl'"
    using grid15_update [OF assms(2)] rc by simp
  have lens: "row < length tbl" "col < length (tbl ! row)"
    using assms(2) rc by (simp_all add: grid15_def list_all_length)
  have "stored ?tbl' h = (if h = ?h then stored tbl h + 1 else stored tbl h)"
    if "is_hexdigest h" for h
  proof -
    from that obtain r c where bh: "bucket h = Inr (r, c)"
      using bucket_hexdigest by blast
    show ?thesis
    proof (cases "h = ?h")
      case True
      with b bh have "r = row" "c = col" by simp_all
      with True b lens show ?thesis
        by (simp add: stored_def split: option.splits)
    next
      case False
      have "(?tbl' ! r ! c) h = (tbl ! r ! c) h"
      proof (cases "r = row \<and> c = col")
        case True
        with lens False show ?thesis by simp
      next
        case False
        with lens show ?thesis
          by (cases "r = row") (auto simp: nth_list_update)
      qed
      with False bh show ?thesis by (simp add: stored_def)
    qed
  qed
  with res g show ?thesis by blast
qed

lemma InsertHashTable_all_stored:
  assumes "md5_contract H" and "grid15 tbl"
  shows "\<exists>tbl'. InsertHashTable_all H tbl sts = Inr tbl' \<and> grid15 tbl' \<and>
           (\<forall>h. is_hexdigest h \<longrightarrow>
              stored tbl' h = stored tbl h + length (filter (\<lambda>s. Gethash H s = h) sts))"
  using assms(2)
proof (induction sts arbitrary: tbl)
  case Nil
  then show ?case by simp
next
  case (Cons st sts)
  from InsertHashTable_stored [OF assms(1) Cons.prems, of st]
  obtain t1 where t1: "InsertHashTable H tbl st = Inr t1" "grid15 t1"
    and s1: "\<And>h. is_hexdigest h \<Longrightarrow>
               stored t1 h = (if h = Gethash H st then stored tbl h + 1 else stored tbl h)"
    by blast
  from Cons.IH [OF t1(2)]
  obtain t2 where t2: "InsertHashTable_all H t1 sts = Inr t2" "grid15 t2"
    and s2: "\<And>h. is_hexdigest h \<Longrightarrow>
               stored t2 h = stored t1 h + length (filter (\<lambda>s. Gethash H s = h) sts)"
    by blast
  have "InsertHashTable_all H tbl (st # sts) = Inr t2"
    using t1 t2 by simp
  moreover have "stored t2 h = stored tbl h + length (filter (\<lambda>s. Gethash H s = h) (st # sts))"
    if "is_hexdigest h" for h
    using s1 [OF that] s2 [OF that] by auto
  ultimately show ?case using t2(2) by blast
qed

lemma grid15_init: "grid15 init_hashtable"
  by (simp add: grid15_def init_hashtable_def list_all_iff)

lemma stored_init: "stored init_hashtable h = 0"
proof (cases "bucket h")
  case (Inl e)
  then show ?thesis by (simp add: stored_def)
next
  case (Inr p)
  obtain row col where p: "p = (row, col)" by (cases p)
  from bucket_range [of h row col] Inr p have "row < 15" "col < 15" by simp_all
  with Inr p show ?thesis
    by (simp add: stored_def init_hashtable_def)
qed

lemma hexchar_nth: "n < 16 \<Longrightarrow> hexchar (''0123456789abcdef'' ! n)"
  unfolding hexchar_def by (rule nth_mem) simp

lemma md5_contract_length_digest: "md5_contract length_digest"
proof -
  have "hexchar (''0123456789abcdef'' ! (length x mod 16))" for x :: string
    by (rule hexchar_nth) simp
  moreover have "hexchar CHR ''0''" by (simp add: hexchar_def)
  ultimately show ?thesis
    by (simp add: md5_contract_def is_hexdigest_def length_digest_def list_all_iff)
qed

section \<open>The replay buffer\<close>

lemma InsertBuffer_result:
  assumes "0 \<le> maxBufferSize s"
  shows "InsertBuffer s st a r ns d va tu =
           Inr (s\<lparr>replay_buffer :=
                  (if maxBufferSize s < int (length (replay_buffer s))
                   then tl (replay_buffer s) else replay_buffer s) @
                  [\<lparr>t_state = st, t_action = a, t_reward = r, t_next_state = ns,
                    t_done = d, t_valid_actions = va, t_turn = tu\<rparr>]\<rparr>)"
  using assms by (cases "replay_buffer s") (simp_all add: InsertBuffer_def)

lemma InsertBuffer_all_length:
  assumes "0 \<le> maxBufferSize s" and "length (replay_buffer s) \<le> nat (maxBufferSize s) + 1"
  shows "\<exists>s'. InsertBuffer_all s trs = Inr s' \<and>
           length (replay_buffer s') =
             min (length (replay_buffer s) + length trs) (nat (maxBufferSize s) + 1)"
  using assms
proof (induction trs arbitrary: s)
  case Nil
  then show ?case by simp
next
  case (Cons tr trs)
  obtain s1 where s1: "insert_transition s tr = Inr s1"
    and buf: "replay_buffer s1 =
               (if maxBufferSize s < int (length (replay_buffer s))
                then tl (replay_buffer s) else replay_buffer s) @ [tr]"
    and mx: "maxBufferSize s1 = maxBufferSize s"
    using InsertBuffer_result [OF Cons.prems(1)] by (simp add: insert_transition_def)
  have len1: "length (replay_buffer s1) =
                min (length (replay_buffer s) + 1) (nat (maxBufferSize s) + 1)"
    using buf Cons.prems by (auto simp: min_def)
  then have "length (replay_buffer s1) \<le> nat (maxBufferSize s1) + 1"
    using mx by simp
  from Cons.IH [OF _ this] Cons.prems(1) mx
  obtain s2 where s2: "InsertBuffer_all s1 trs = Inr s2"
    and len2: "length (replay_buffer s2) =
                 min (length (replay_buffer s1) + length trs) (nat (maxBufferSize s1) + 1)"
    by auto
  have "InsertBuffer_all s (tr # trs) = Inr s2"
    using s1 s2 by simp
  moreover have "length (replay_buffer s2) =
      min (length (replay_buffer s) + length (tr # trs)) (nat (maxBufferSize s) + 1)"
    using len1 len2 mx by (simp add: min_def)
  ultimately show ?case by blast
qed

text \<open>
  C2. An insert into the replay buffer evicts at most one element, the one at the front,
  and it does so exactly when the size before the insert is strictly above the configured
  maximum; the new transition goes to the end. So \<open>maximum + 5\<close> inserts into an empty
  buffer, with nothing consumed between them, leave \<open>maximum + 1\<close> transitions. The
  maximum is a capacity, not negative.
\<close>

theorem InsertBuffer_single_eviction:
  assumes "0 \<le> maxBufferSize s"
  shows "(\<exists>s'. InsertBuffer s st a r ns d va tu = Inr s' \<and>
            replay_buffer s' =
              (if maxBufferSize s < int (length (replay_buffer s))
               then tl (replay_buffer s) else replay_buffer s) @
              [\<lparr>t_state = st, t_action = a, t_reward = r, t_next_state = ns,
                t_done = d, t_valid_actions = va, t_turn = tu\<rparr>]) \<and>
         (replay_buffer s = [] \<and> length trs = nat (maxBufferSize s) + 5 \<longrightarrow>
            (\<exists>s'. InsertBuffer_all s trs = Inr s' \<and>
               length (replay_buffer s') = nat (maxBufferSize s) + 1))"
proof (intro conjI impI)
  show "\<exists>s'. InsertBuffer s st a r ns d va tu = Inr s' \<and>
          replay_buffer s' =
            (if maxBufferSize s < int (length (replay_buffer s))
             then tl (replay_buffer s) else replay_buffer s) @
            [\<lparr>t_state = st, t_action = a, t_reward = r, t_next_state = ns,
              t_done = d, t_valid_actions = va, t_turn = tu\<rparr>]"
    using InsertBuffer_result [OF assms] by simp
next
  assume a: "replay_buffer s = [] \<and> length trs = nat (maxBufferSize s) + 5"
  then have "length (replay_buffer s) \<le> nat (maxBufferSize s) + 1" by simp
  from InsertBuffer_all_length [OF assms this, of trs] a
  show "\<exists>s'. InsertBuffer_all s trs = Inr s' \<and>
          length (replay_buffer s') = nat (maxBufferSize s) + 1"
    by (simp add: min_def)
qed

theorem InsertBuffer_single_eviction_witness:
  "0 \<le> maxBufferSize agent0 \<and> replay_buffer agent0 = [] \<and>
   length [tr0, tr1, tr0, tr1, tr0, tr1] = nat (maxBufferSize agent0) + 5 \<and>
   (\<exists>s'. InsertBuffer_all agent0 [tr0, tr1, tr0, tr1, tr0, tr1] = Inr s' \<and>
      length (replay_buffer s') = nat (maxBufferSize agent0) + 1)"
proof -
  have h: "0 \<le> maxBufferSize agent0" by (simp add: agent0_def)
  have e: "replay_buffer agent0 = [] \<and>
           length [tr0, tr1, tr0, tr1, tr0, tr1] = nat (maxBufferSize agent0) + 5"
    by (simp add: agent0_def)
  from InsertBuffer_single_eviction
    [OF h, of "[]" 0 0 "[]" True "[]" 0 "[tr0, tr1, tr0, tr1, tr0, tr1]"] e h
  show ?thesis by blast
qed

section \<open>The visit-count table\<close>

text \<open>
  C9. The bucket row and column of every fingerprint lie in 0..9. So with the 15 x 15
  grid, \<open>GetCount\<close> and \<open>_InsertHashTable\<close> never index out of bounds: the one bucket
  they read is the fingerprint's, the one bucket that is written is the same one, and
  every other bucket, those of rows and columns 10 to 14 among them, stays as it was.
\<close>

theorem bucket_coordinates_in_range:
  assumes "md5_contract H" and "grid15 tbl"
  shows "(\<forall>h. is_hexdigest h \<longrightarrow> (\<exists>row col. bucket h = Inr (row, col) \<and> row \<le> 9 \<and> col \<le> 9)) \<and>
         (\<exists>row col. bucket (Gethash H st) = Inr (row, col) \<and> row \<le> 9 \<and> col \<le> 9 \<and>
            bucket_at tbl row col = Inr (tbl ! row ! col) \<and>
            GetCount H tbl st =
              Inr (case (tbl ! row ! col) (Gethash H st) of None \<Rightarrow> 0 | Some n \<Rightarrow> n) \<and>
            (\<exists>tbl'. InsertHashTable H tbl st = Inr tbl' \<and> grid15 tbl' \<and>
               (\<forall>i j. (i, j) \<noteq> (row, col) \<longrightarrow> tbl' ! i ! j = tbl ! i ! j)))"
proof (rule conjI)
  show "\<forall>h. is_hexdigest h \<longrightarrow> (\<exists>row col. bucket h = Inr (row, col) \<and> row \<le> 9 \<and> col \<le> 9)"
    using bucket_hexdigest bucket_range by blast
next
  let ?h = "Gethash H st"
  from assms(1) have "is_hexdigest ?h"
    by (simp add: md5_contract_def Gethash_def)
  then obtain row col where b: "bucket ?h = Inr (row, col)"
    using bucket_hexdigest by blast
  from bucket_range [OF b] have rc: "row \<le> 9" "col \<le> 9" by simp_all
  from grid15_access [OF assms(2) rc]
  have at: "bucket_at tbl row col = Inr (tbl ! row ! col)" .
  have lens: "row < length tbl" "col < length (tbl ! row)"
    using assms(2) rc by (simp_all add: grid15_def list_all_length)
  let ?b = "tbl ! row ! col"
  let ?n = "case ?b ?h of None \<Rightarrow> 1 | Some n \<Rightarrow> n + 1"
  let ?tbl' = "tbl[row := (tbl ! row)[col := ?b(?h \<mapsto> ?n)]]"
  have cnt: "GetCount H tbl st = Inr (case ?b ?h of None \<Rightarrow> 0 | Some n \<Rightarrow> n)"
    using b at by (simp add: GetCount_def split: option.splits)
  have ins: "InsertHashTable H tbl st = Inr ?tbl'"
    using b at by (simp add: InsertHashTable_def split: option.splits)
  have g: "grid15 ?tbl'"
    using grid15_update [OF assms(2)] rc by simp
  have other: "?tbl' ! i ! j = tbl ! i ! j" if "(i, j) \<noteq> (row, col)" for i j
  proof (cases "i = row")
    case True
    with that have "j \<noteq> col" by simp
    with True lens show ?thesis by simp
  next
    case False
    then show ?thesis by simp
  qed
  from b rc at cnt ins g other
  show "\<exists>row col. bucket ?h = Inr (row, col) \<and> row \<le> 9 \<and> col \<le> 9 \<and>
          bucket_at tbl row col = Inr (tbl ! row ! col) \<and>
          GetCount H tbl st =
            Inr (case (tbl ! row ! col) ?h of None \<Rightarrow> 0 | Some n \<Rightarrow> n) \<and>
          (\<exists>tbl'. InsertHashTable H tbl st = Inr tbl' \<and> grid15 tbl' \<and>
             (\<forall>i j. (i, j) \<noteq> (row, col) \<longrightarrow> tbl' ! i ! j = tbl ! i ! j))"
    by blast
qed

theorem bucket_coordinates_in_range_witness:
  "md5_contract length_digest \<and> grid15 init_hashtable \<and>
   (\<exists>row col. bucket (Gethash length_digest [[0, 1], [2, 3]]) = Inr (row, col) \<and>
      row \<le> 9 \<and> col \<le> 9 \<and>
      (\<exists>tbl'. InsertHashTable length_digest init_hashtable [[0, 1], [2, 3]] = Inr tbl' \<and>
         grid15 tbl'))"
  using bucket_coordinates_in_range
    [OF md5_contract_length_digest grid15_init, of "[[0, 1], [2, 3]]"]
    md5_contract_length_digest grid15_init
  by blast

text \<open>
  C5. A state that has never been recorded has count 0. After any sequence of \<open>record\<close>
  calls on the empty table, the count of a state is the number of calls made on states
  with its fingerprint (calls on states with another fingerprint do not disturb it). One
  \<open>record\<close> call adds exactly 1 to the count of the states with the recorded
  fingerprint, making it 1 when it was absent, and leaves every other count as it was.
  \<open>GetCount\<close> returns a number only: the table is an argument and there is no table
  in its result.
\<close>

theorem visit_count_is_number_of_records:
  assumes "md5_contract H" and "grid15 tbl"
  shows "GetCount H init_hashtable st = Inr 0 \<and>
         (\<exists>tbl'. InsertHashTable_all H init_hashtable sts = Inr tbl' \<and>
            GetCount H tbl' st =
              Inr (length (filter (\<lambda>s. Gethash H s = Gethash H st) sts))) \<and>
         (\<exists>n tbl'. GetCount H tbl st = Inr n \<and>
            InsertHashTable H tbl st' = Inr tbl' \<and> grid15 tbl' \<and>
            GetCount H tbl' st = Inr (if Gethash H st = Gethash H st' then n + 1 else n))"
proof (intro conjI)
  have hd: "is_hexdigest (Gethash H x)" for x
    using assms(1) by (simp add: md5_contract_def Gethash_def)
  show "GetCount H init_hashtable st = Inr 0"
    using GetCount_stored [OF assms(1) grid15_init] by (simp add: stored_init)
  from InsertHashTable_all_stored [OF assms(1) grid15_init, of sts]
  obtain t where t: "InsertHashTable_all H init_hashtable sts = Inr t" "grid15 t"
    and st: "\<And>h. is_hexdigest h \<Longrightarrow>
               stored t h = stored init_hashtable h + length (filter (\<lambda>s. Gethash H s = h) sts)"
    by blast
  have "GetCount H t st = Inr (length (filter (\<lambda>s. Gethash H s = Gethash H st) sts))"
    using GetCount_stored [OF assms(1) t(2)] st [OF hd] by (simp add: stored_init)
  with t(1) show "\<exists>tbl'. InsertHashTable_all H init_hashtable sts = Inr tbl' \<and>
      GetCount H tbl' st = Inr (length (filter (\<lambda>s. Gethash H s = Gethash H st) sts))"
    by blast
  from InsertHashTable_stored [OF assms, of st']
  obtain u where u: "InsertHashTable H tbl st' = Inr u" "grid15 u"
    and su: "\<And>h. is_hexdigest h \<Longrightarrow>
               stored u h = (if h = Gethash H st' then stored tbl h + 1 else stored tbl h)"
    by blast
  have "GetCount H u st =
          Inr (if Gethash H st = Gethash H st' then stored tbl (Gethash H st) + 1
               else stored tbl (Gethash H st))"
    using GetCount_stored [OF assms(1) u(2)] su [OF hd] by simp
  with u GetCount_stored [OF assms]
  show "\<exists>n tbl'. GetCount H tbl st = Inr n \<and>
          InsertHashTable H tbl st' = Inr tbl' \<and> grid15 tbl' \<and>
          GetCount H tbl' st = Inr (if Gethash H st = Gethash H st' then n + 1 else n)"
    by blast
qed

lemma Gethash_length_digest_examples:
  "Gethash length_digest [[0, 1], [2, 3]] = replicate 31 CHR ''0'' @ ''a''"
  "Gethash length_digest [[0, 1, 0], [2, 3, 0]] = replicate 31 CHR ''0'' @ ''e''"
  by (simp_all add: Gethash_def length_digest_def combined_string_def np_str_row_def
      str_int_def str_nat.simps rjust_def)

theorem visit_count_is_number_of_records_witness:
  "md5_contract length_digest \<and> grid15 init_hashtable \<and>
   (\<exists>tbl'. InsertHashTable_all length_digest init_hashtable
             [[[0, 1], [2, 3]], [[0, 1, 0], [2, 3, 0]], [[0, 1], [2, 3]]] = Inr tbl' \<and>
      GetCount length_digest tbl' [[0, 1], [2, 3]] = Inr 2)"
proof -
  let ?st = "[[0, 1], [2, 3]] :: state"
  let ?sts = "[[[0, 1], [2, 3]], [[0, 1, 0], [2, 3, 0]], [[0, 1], [2, 3]]] :: state list"
  have n: "length (filter (\<lambda>s. Gethash length_digest s = Gethash length_digest ?st) ?sts) = 2"
    by (simp add: Gethash_length_digest_examples)
  from visit_count_is_number_of_records
    [OF md5_contract_length_digest grid15_init, of ?st ?sts]
  obtain t where t: "InsertHashTable_all length_digest init_hashtable ?sts = Inr t"
    and c: "GetCount length_digest t ?st =
              Inr (length (filter (\<lambda>s. Gethash length_digest s = Gethash length_digest ?st) ?sts))"
    by blast
  from c have "GetCount length_digest t ?st = Inr 2"
    by (simp only: n)
  with t md5_contract_length_digest grid15_init show ?thesis by blast
qed

section \<open>The training step\<close>

text \<open>
  C4. With fewer than \<open>batch_size\<close> transitions in the replay buffer, \<open>train\<close> returns
  \<open>None\<close>, no loss, and the agent is as before: the replay buffer, the visit-count
  table and both networks.
\<close>

theorem train_small_buffer_noop:
  assumes "int (length (replay_buffer s)) < batch_size s"
  shows "train q tob H minibatch_indices s = Inr (None, s)"
  using assms by (simp add: train_def)

theorem train_small_buffer_noop_witness:
  "int (length (replay_buffer (agent0\<lparr>replay_buffer := [tr0]\<rparr>)))
     < batch_size (agent0\<lparr>replay_buffer := [tr0]\<rparr>) \<and>
   train const_net tob0 length_digest [0] (agent0\<lparr>replay_buffer := [tr0]\<rparr>) =
     Inr (None, agent0\<lparr>replay_buffer := [tr0]\<rparr>)"
proof -
  have h: "int (length (replay_buffer (agent0\<lparr>replay_buffer := [tr0]\<rparr>)))
             < batch_size (agent0\<lparr>replay_buffer := [tr0]\<rparr>)"
    by (simp add: agent0_def)
  from train_small_buffer_noop [OF h] h show ?thesis by blast
qed

section \<open>The policies\<close>

lemma np_index_valid:
  assumes "np_valid n a"
  shows "np_index n a = Inr (np_pos n a)" and "np_pos n a < n"
  using assms by (auto simp: np_valid_def np_index_def np_pos_def)

lemma take_indices_valid:
  assumes "list_all (np_valid (length row)) vs"
  shows "take_indices row vs = Inr (map (np_item row) vs)"
  using assms
  by (induction vs) (simp_all add: np_index_valid np_item_def)

lemma argmax_from_spec:
  assumes "length pre = i" and "best < i" and "pre ! best = bv"
    and "\<forall>k<i. pre ! k \<le> bv" and "\<forall>k<best. pre ! k < bv"
  shows "argmax_from best bv i xs < length (pre @ xs) \<and>
         (\<forall>k<length (pre @ xs). (pre @ xs) ! k \<le> (pre @ xs) ! argmax_from best bv i xs) \<and>
         (\<forall>k<argmax_from best bv i xs. (pre @ xs) ! k < (pre @ xs) ! argmax_from best bv i xs)"
  using assms
proof (induction xs arbitrary: pre i best bv)
  case Nil
  then show ?case by simp
next
  case (Cons x xs)
  show ?case
  proof (cases "bv < x")
    case True
    have "argmax_from i x (Suc i) xs < length ((pre @ [x]) @ xs) \<and>
         (\<forall>k<length ((pre @ [x]) @ xs). ((pre @ [x]) @ xs) ! k \<le> ((pre @ [x]) @ xs) ! argmax_from i x (Suc i) xs) \<and>
         (\<forall>k<argmax_from i x (Suc i) xs. ((pre @ [x]) @ xs) ! k < ((pre @ [x]) @ xs) ! argmax_from i x (Suc i) xs)"
    proof (rule Cons.IH)
      show "length (pre @ [x]) = Suc i" using Cons.prems(1) by simp
      show "i < Suc i" by simp
      show "(pre @ [x]) ! i = x" using Cons.prems(1) by (simp add: nth_append)
      show "\<forall>k<Suc i. (pre @ [x]) ! k \<le> x"
        using Cons.prems(1,4) True by (auto simp: nth_append less_Suc_eq intro: order_trans less_imp_le)
      show "\<forall>k<i. (pre @ [x]) ! k < x"
        using Cons.prems(1,4) True by (auto simp: nth_append intro: le_less_trans)
    qed
    with True show ?thesis by simp
  next
    case False
    have "argmax_from best bv (Suc i) xs < length ((pre @ [x]) @ xs) \<and>
         (\<forall>k<length ((pre @ [x]) @ xs). ((pre @ [x]) @ xs) ! k \<le> ((pre @ [x]) @ xs) ! argmax_from best bv (Suc i) xs) \<and>
         (\<forall>k<argmax_from best bv (Suc i) xs. ((pre @ [x]) @ xs) ! k < ((pre @ [x]) @ xs) ! argmax_from best bv (Suc i) xs)"
    proof (rule Cons.IH)
      show "length (pre @ [x]) = Suc i" using Cons.prems(1) by simp
      show "best < Suc i" using Cons.prems(2) by simp
      show "(pre @ [x]) ! best = bv" using Cons.prems(1,2,3) by (simp add: nth_append)
      show "\<forall>k<Suc i. (pre @ [x]) ! k \<le> bv"
        using Cons.prems(1,4) False by (auto simp: nth_append less_Suc_eq)
      show "\<forall>k<best. (pre @ [x]) ! k < bv"
        using Cons.prems(1,2,5) by (auto simp: nth_append)
    qed
    with False show ?thesis by simp
  qed
qed

lemma argmax_spec:
  assumes "vs \<noteq> []"
  shows "\<exists>j. argmax vs = Inr j \<and> j < length vs \<and>
           (\<forall>k<length vs. vs ! k \<le> vs ! j) \<and> (\<forall>k<j. vs ! k < vs ! j)"
proof -
  from assms obtain v rest where vs: "vs = v # rest" by (cases vs) auto
  have "argmax_from 0 v 1 rest < length ([v] @ rest) \<and>
         (\<forall>k<length ([v] @ rest). ([v] @ rest) ! k \<le> ([v] @ rest) ! argmax_from 0 v 1 rest) \<and>
         (\<forall>k<argmax_from 0 v 1 rest. ([v] @ rest) ! k < ([v] @ rest) ! argmax_from 0 v 1 rest)"
    by (rule argmax_from_spec) simp_all
  then show ?thesis by (simp add: vs argmax_def)
qed

lemma counts_stored:
  assumes "md5_contract H" and "grid15 tbl"
  shows "counts H tbl sts = Inr (map (\<lambda>st. stored tbl (Gethash H st)) sts)"
  by (induction sts) (simp_all add: GetCount_stored [OF assms])


lemma predict_single: "predict q net [state] [turn] ! 0 = q net state turn"
  by (simp add: predict_def)

lemma filter_update_True:
  "j < length m \<Longrightarrow> length (filter (\<lambda>b. b) (m[j := True])) \<le> Suc (length (filter (\<lambda>b. b) m))"
  by (induction m arbitrary: j) (auto split: nat.splits)

lemma set_mask_valid:
  assumes "list_all (np_valid (length m)) vs"
  shows "\<exists>m'. set_mask m vs = Inr m' \<and> length m' = length m \<and>
           length (filter (\<lambda>b. b) m') \<le> length (filter (\<lambda>b. b) m) + length vs \<and>
           (vs \<noteq> [] \<or> True \<in> set m \<longrightarrow> True \<in> set m')"
  using assms
proof (induction vs arbitrary: m)
  case Nil
  then show ?case by simp
next
  case (Cons a vs)
  let ?j = "np_pos (length m) a"
  from Cons.prems have a: "np_valid (length m) a"
    and vs: "list_all (np_valid (length (m[?j := True]))) vs"
    by simp_all
  from np_index_valid [OF a] have j: "np_index (length m) a = Inr ?j" "?j < length m" .
  from Cons.IH [OF vs] obtain m' where m': "set_mask (m[?j := True]) vs = Inr m'"
    "length m' = length (m[?j := True])"
    "length (filter (\<lambda>b. b) m') \<le> length (filter (\<lambda>b. b) (m[?j := True])) + length vs"
    "vs \<noteq> [] \<or> True \<in> set (m[?j := True]) \<longrightarrow> True \<in> set m'"
    by blast
  have "True \<in> set (m[?j := True])"
    using j(2) by (simp add: set_update_memI)
  with m'(4) have "True \<in> set m'" by simp
  moreover have "length (filter (\<lambda>b. b) m') \<le> length (filter (\<lambda>b. b) m) + length (a # vs)"
    using m'(3) filter_update_True [OF j(2)] by simp
  moreover have "set_mask m (a # vs) = Inr m'"
    using j(1) m'(1) by simp
  moreover have "length m' = length m" using m'(2) by simp
  ultimately show ?case by blast
qed

lemma length_masked:
  "length q_values = length m \<Longrightarrow> length (masked q_values m) = length (filter (\<lambda>b. b) m)"
  unfolding masked_def
  by (induction q_values m rule: list_induct2) simp_all

lemma EstimatePolicy_member:
  assumes "valid_action \<noteq> []"
    and "list_all (np_valid (length (q (target_model s) state turn))) valid_action"
  shows "\<exists>a. EstimatePolicy q s state turn valid_action = Inr a \<and> a \<in> set valid_action"
proof -
  let ?qv = "q (target_model s) state turn"
  let ?m0 = "replicate (length ?qv) False"
  from assms(2) have "list_all (np_valid (length ?m0)) valid_action" by simp
  from set_mask_valid [OF this] assms(1)
  obtain m where m: "set_mask ?m0 valid_action = Inr m" "length m = length ?qv"
    "length (filter (\<lambda>b. b) m) \<le> length (filter (\<lambda>b. b) ?m0) + length valid_action" "True \<in> set m"
    by auto
  have "filter (\<lambda>b. b) ?m0 = []" by (simp add: filter_empty_conv)
  with m(3) have le: "length (filter (\<lambda>b. b) m) \<le> length valid_action" by simp
  have len: "length (masked ?qv m) = length (filter (\<lambda>b. b) m)"
    using m(2) by (simp add: length_masked)
  have "filter (\<lambda>b. b) m \<noteq> []"
    using m(4) by (auto simp: filter_empty_conv)
  with len have "masked ?qv m \<noteq> []" by auto
  from argmax_spec [OF this] obtain j where j: "argmax (masked ?qv m) = Inr j"
    "j < length (masked ?qv m)"
    by blast
  from j(2) len le have jl: "j < length valid_action" by simp
  have "EstimatePolicy q s state turn valid_action = Inr (valid_action ! j)"
    using m(1) j(1) jl by (simp add: EstimatePolicy_def predict_single list_item_def)
  with jl show ?thesis by simp
qed

lemma BehaviorPolicy_cases:
  assumes "valid_action \<noteq> []"
    and "list_all (np_valid (length (q (target_model s) state turn))) valid_action"
    and "md5_contract H" and "grid15 (hashtable s)"
  shows "\<exists>count. counts H (hashtable s) (map simulateNextState valid_action) = Inr count \<and>
           length count = length valid_action \<and>
           (\<forall>k<length valid_action.
              GetCount H (hashtable s) (simulateNextState (valid_action ! k)) = Inr (count ! k)) \<and>
           (sum_list count = 0 \<longrightarrow>
              BehaviorPolicy q H s simulateNextState state turn valid_action =
                Inr (Uniform valid_action)) \<and>
           (sum_list count \<noteq> 0 \<longrightarrow>
              (\<exists>j<length valid_action.
                 BehaviorPolicy q H s simulateNextState state turn valid_action =
                   Inr (Exactly (valid_action ! j)) \<and>
                 (\<forall>k<length valid_action.
                    np_item (q (target_model s) state turn) (valid_action ! k) +
                      sqrt (2 * ln (real (sum_list count)) / (1 + real (count ! k)))
                    \<le> np_item (q (target_model s) state turn) (valid_action ! j) +
                      sqrt (2 * ln (real (sum_list count)) / (1 + real (count ! j)))) \<and>
                 (\<forall>k<j.
                    np_item (q (target_model s) state turn) (valid_action ! k) +
                      sqrt (2 * ln (real (sum_list count)) / (1 + real (count ! k)))
                    < np_item (q (target_model s) state turn) (valid_action ! j) +
                      sqrt (2 * ln (real (sum_list count)) / (1 + real (count ! j))))))"
proof -
  let ?qv = "q (target_model s) state turn"
  let ?tbl = "hashtable s"
  let ?count = "map (\<lambda>st. stored ?tbl (Gethash H st)) (map simulateNextState valid_action)"
  let ?n = "length valid_action"
  let ?B = "BehaviorPolicy q H s simulateNextState state turn valid_action"
  have c: "counts H ?tbl (map simulateNextState valid_action) = Inr ?count"
    by (rule counts_stored [OF assms(3,4)])
  have lc: "length ?count = ?n" by simp
  have gc: "GetCount H ?tbl (simulateNextState (valid_action ! k)) = Inr (?count ! k)"
    if "k < ?n" for k
    using that GetCount_stored [OF assms(3,4)] by simp
  have ti: "take_indices ?qv valid_action = Inr (map (np_item ?qv) valid_action)"
    by (rule take_indices_valid [OF assms(2)])
  have zero: "?B = Inr (Uniform valid_action)" if "sum_list ?count = 0"
    using that ti c assms(1) by (simp add: BehaviorPolicy_def predict_single)
  let ?u = "map (\<lambda>(qv, c). uct ?count qv c) (zip (map (np_item ?qv) valid_action) ?count)"
  have lu: "length ?u = ?n" by simp
  have uk: "?u ! k = np_item ?qv (valid_action ! k) +
              sqrt (2 * ln (real (sum_list ?count)) / (1 + real (?count ! k)))"
    if "k < ?n" for k
    using that by (simp add: uct_def)
  have pos: "\<exists>j<?n. ?B = Inr (Exactly (valid_action ! j)) \<and>
                (\<forall>k<?n. ?u ! k \<le> ?u ! j) \<and> (\<forall>k<j. ?u ! k < ?u ! j)"
    if nz: "sum_list ?count \<noteq> 0"
  proof -
    have "?u \<noteq> []" using assms(1) by simp
    from argmax_spec [OF this] obtain j where j: "argmax ?u = Inr j" "j < length ?u"
      "\<forall>k<length ?u. ?u ! k \<le> ?u ! j" "\<forall>k<j. ?u ! k < ?u ! j"
      by blast
    from j(2) have jn: "j < ?n" by simp
    have "?B = Inr (Exactly (valid_action ! j))"
      unfolding BehaviorPolicy_def predict_single ti c
      using nz j(1) jn assms(1) by (simp add: list_item_def)
    with j(3,4) jn lu show ?thesis by auto
  qed
  show ?thesis
  proof (intro exI [of _ ?count] conjI impI)
    show "counts H ?tbl (map simulateNextState valid_action) = Inr ?count" by (rule c)
    show "length ?count = ?n" by (rule lc)
    show "\<forall>k<?n. GetCount H ?tbl (simulateNextState (valid_action ! k)) = Inr (?count ! k)"
      using gc by blast
    show "?B = Inr (Uniform valid_action)" if "sum_list ?count = 0"
      using that by (rule zero)
  next
    assume nz: "sum_list ?count \<noteq> 0"
    from pos [OF nz] obtain j where j: "j < ?n" "?B = Inr (Exactly (valid_action ! j))"
      "\<forall>k<?n. ?u ! k \<le> ?u ! j" "\<forall>k<j. ?u ! k < ?u ! j"
      by blast
    have a: "\<forall>k<?n. np_item ?qv (valid_action ! k) +
              sqrt (2 * ln (real (sum_list ?count)) / (1 + real (?count ! k)))
            \<le> np_item ?qv (valid_action ! j) +
              sqrt (2 * ln (real (sum_list ?count)) / (1 + real (?count ! j)))"
    proof (intro allI impI)
      fix k assume k: "k < ?n"
      from j(3) k have "?u ! k \<le> ?u ! j" by blast
      then show "np_item ?qv (valid_action ! k) +
              sqrt (2 * ln (real (sum_list ?count)) / (1 + real (?count ! k)))
            \<le> np_item ?qv (valid_action ! j) +
              sqrt (2 * ln (real (sum_list ?count)) / (1 + real (?count ! j)))"
        unfolding uk [OF k] uk [OF j(1)] .
    qed
    have b: "\<forall>k<j. np_item ?qv (valid_action ! k) +
              sqrt (2 * ln (real (sum_list ?count)) / (1 + real (?count ! k)))
            < np_item ?qv (valid_action ! j) +
              sqrt (2 * ln (real (sum_list ?count)) / (1 + real (?count ! j)))"
    proof (intro allI impI)
      fix k assume kj: "k < j"
      with j(1) have k: "k < ?n" by simp
      from j(4) kj have "?u ! k < ?u ! j" by blast
      then show "np_item ?qv (valid_action ! k) +
              sqrt (2 * ln (real (sum_list ?count)) / (1 + real (?count ! k)))
            < np_item ?qv (valid_action ! j) +
              sqrt (2 * ln (real (sum_list ?count)) / (1 + real (?count ! j)))"
        unfolding uk [OF k] uk [OF j(1)] .
    qed
    from j(1,2) a b
    show "\<exists>j<?n. ?B = Inr (Exactly (valid_action ! j)) \<and>
            (\<forall>k<?n. np_item ?qv (valid_action ! k) +
              sqrt (2 * ln (real (sum_list ?count)) / (1 + real (?count ! k)))
            \<le> np_item ?qv (valid_action ! j) +
              sqrt (2 * ln (real (sum_list ?count)) / (1 + real (?count ! j)))) \<and>
            (\<forall>k<j. np_item ?qv (valid_action ! k) +
              sqrt (2 * ln (real (sum_list ?count)) / (1 + real (?count ! k)))
            < np_item ?qv (valid_action ! j) +
              sqrt (2 * ln (real (sum_list ?count)) / (1 + real (?count ! j))))"
      by blast
  qed
qed

text \<open>
  C6. For a non-empty list of legal actions (indices of the action-value vector), the
  behaviour policy looks up the visit count of every simulated next state. When the
  counts sum to 0 the result is a uniform draw from the legal actions. Otherwise it is
  the legal action whose score, the value estimate of the target network plus
  \<open>sqrt (2 * ln total / (1 + count))\<close>, is largest, the first such action in the list
  when several share the largest score.
\<close>

theorem BehaviorPolicy_uniform_or_uct:
  assumes "valid_action \<noteq> []"
    and "list_all (np_valid (length (q (target_model s) state turn))) valid_action"
    and "md5_contract H" and "grid15 (hashtable s)"
  shows "\<exists>count. counts H (hashtable s) (map simulateNextState valid_action) = Inr count \<and>
           length count = length valid_action \<and>
           (\<forall>k<length valid_action.
              GetCount H (hashtable s) (simulateNextState (valid_action ! k)) = Inr (count ! k)) \<and>
           (sum_list count = 0 \<longrightarrow>
              BehaviorPolicy q H s simulateNextState state turn valid_action =
                Inr (Uniform valid_action)) \<and>
           (sum_list count \<noteq> 0 \<longrightarrow>
              (\<exists>j<length valid_action.
                 BehaviorPolicy q H s simulateNextState state turn valid_action =
                   Inr (Exactly (valid_action ! j)) \<and>
                 (\<forall>k<length valid_action.
                    np_item (q (target_model s) state turn) (valid_action ! k) +
                      sqrt (2 * ln (real (sum_list count)) / (1 + real (count ! k)))
                    \<le> np_item (q (target_model s) state turn) (valid_action ! j) +
                      sqrt (2 * ln (real (sum_list count)) / (1 + real (count ! j)))) \<and>
                 (\<forall>k<j.
                    np_item (q (target_model s) state turn) (valid_action ! k) +
                      sqrt (2 * ln (real (sum_list count)) / (1 + real (count ! k)))
                    < np_item (q (target_model s) state turn) (valid_action ! j) +
                      sqrt (2 * ln (real (sum_list count)) / (1 + real (count ! j))))))"
  by (rule BehaviorPolicy_cases
    [where q = q and s = s and state = state and turn = turn and H = H and
      valid_action = valid_action and simulateNextState = simulateNextState, OF assms])

lemma agent0_legal:
  "[0, 2] \<noteq> ([] :: int list)"
  "list_all (np_valid (length (const_net (target_model agent0) board0 1))) [0, 2]"
  "grid15 (hashtable agent0)"
  by (simp_all add: const_net_def agent0_def np_valid_def grid15_init)

lemma counts_agent0:
  "counts length_digest (hashtable agent0) (map sim0 [0, 2]) = Inr [0, 0]"
proof -
  have "counts length_digest (hashtable agent0) (map sim0 [0, 2]) =
          Inr (map (\<lambda>st. stored (hashtable agent0) (Gethash length_digest st)) (map sim0 [0, 2]))"
    by (rule counts_stored [OF md5_contract_length_digest agent0_legal(3)])
  moreover have "hashtable agent0 = init_hashtable" by (simp add: agent0_def)
  ultimately show ?thesis by (simp add: stored_init)
qed



theorem BehaviorPolicy_uniform_or_uct_witness:
  "[0, 2] \<noteq> ([] :: int list) \<and>
   list_all (np_valid (length (const_net (target_model agent0) board0 1))) [0, 2] \<and>
   md5_contract length_digest \<and> grid15 (hashtable agent0) \<and>
   BehaviorPolicy const_net length_digest agent0 sim0 board0 1 [0, 2] = Inr (Uniform [0, 2])"
proof -
  note th = BehaviorPolicy_uniform_or_uct
      [where valid_action = "[0, 2]" and q = const_net and s = agent0 and state = board0
        and turn = 1 and H = length_digest and simulateNextState = sim0,
        OF agent0_legal(1) agent0_legal(2) md5_contract_length_digest agent0_legal(3)]
  from th have "BehaviorPolicy const_net length_digest agent0 sim0 board0 1 [0, 2] =
                  Inr (Uniform [0, 2])"
  proof (elim exE conjE)
    fix count
    assume c: "counts length_digest (hashtable agent0) (map sim0 [0, 2]) = Inr count"
      and u: "sum_list count = 0 \<longrightarrow>
                BehaviorPolicy const_net length_digest agent0 sim0 board0 1 [0, 2] =
                  Inr (Uniform [0, 2])"
    from c have "count = [0, 0]" by (simp only: counts_agent0 sum.inject)
    with u show ?thesis by simp
  qed
  with agent0_legal md5_contract_length_digest show ?thesis by (intro conjI)
qed

lemma BehaviorPolicy_member:
  assumes "valid_action \<noteq> []"
    and "list_all (np_valid (length (q (target_model s) state turn))) valid_action"
    and "md5_contract H" and "grid15 (hashtable s)"
  shows "\<exists>c. BehaviorPolicy q H s simulateNextState state turn valid_action = Inr c \<and>
           outcomes c \<noteq> {} \<and> outcomes c \<subseteq> set valid_action"
proof -
  let ?B = "BehaviorPolicy q H s simulateNextState state turn valid_action"
  note th = BehaviorPolicy_cases
    [where q = q and s = s and state = state and turn = turn and H = H and
      valid_action = valid_action and simulateNextState = simulateNextState, OF assms]
  from th show ?thesis
  proof (elim exE conjE)
    fix count
    assume z: "sum_list count = 0 \<longrightarrow> ?B = Inr (Uniform valid_action)"
      and nz: "sum_list count \<noteq> 0 \<longrightarrow>
           (\<exists>j<length valid_action. ?B = Inr (Exactly (valid_action ! j)) \<and>
                 (\<forall>k<length valid_action.
                    np_item (q (target_model s) state turn) (valid_action ! k) +
                      sqrt (2 * ln (real (sum_list count)) / (1 + real (count ! k)))
                    \<le> np_item (q (target_model s) state turn) (valid_action ! j) +
                      sqrt (2 * ln (real (sum_list count)) / (1 + real (count ! j)))) \<and>
                 (\<forall>k<j.
                    np_item (q (target_model s) state turn) (valid_action ! k) +
                      sqrt (2 * ln (real (sum_list count)) / (1 + real (count ! k)))
                    < np_item (q (target_model s) state turn) (valid_action ! j) +
                      sqrt (2 * ln (real (sum_list count)) / (1 + real (count ! j)))))"
    show ?thesis
    proof (cases "sum_list count = 0")
      case True
      with z have "?B = Inr (Uniform valid_action)" by simp
      with assms(1) show ?thesis by simp
    next
      case False
      with nz have "\<exists>j<length valid_action. ?B = Inr (Exactly (valid_action ! j))"
        by (elim impE exE conjE) (assumption, rule exI, rule conjI)
      then obtain j where "j < length valid_action" "?B = Inr (Exactly (valid_action ! j))"
        by (elim exE conjE)
      then show ?thesis by simp
    qed
  qed
qed

text \<open>
  C10. For a non-empty list of legal actions (indices of the action-value vector), both
  policies return, and what they return is an element of the list: every possible
  result of the behaviour policy, and the result of the estimate policy.
\<close>

theorem policies_return_legal_action:
  assumes "valid_action \<noteq> []"
    and "list_all (np_valid (length (q (target_model s) state turn))) valid_action"
    and "md5_contract H" and "grid15 (hashtable s)"
  shows "(\<exists>c. BehaviorPolicy q H s simulateNextState state turn valid_action = Inr c \<and>
            outcomes c \<noteq> {} \<and> outcomes c \<subseteq> set valid_action) \<and>
         (\<exists>a. EstimatePolicy q s state turn valid_action = Inr a \<and> a \<in> set valid_action)"
proof (rule conjI)
  show "\<exists>c. BehaviorPolicy q H s simulateNextState state turn valid_action = Inr c \<and>
          outcomes c \<noteq> {} \<and> outcomes c \<subseteq> set valid_action"
    by (rule BehaviorPolicy_member
      [where q = q and s = s and state = state and turn = turn and H = H and
        valid_action = valid_action and simulateNextState = simulateNextState, OF assms])
next
  show "\<exists>a. EstimatePolicy q s state turn valid_action = Inr a \<and> a \<in> set valid_action"
    by (rule EstimatePolicy_member
      [where q = q and s = s and state = state and turn = turn and
        valid_action = valid_action, OF assms(1,2)])
qed

theorem policies_return_legal_action_witness:
  "[0, 2] \<noteq> ([] :: int list) \<and>
   list_all (np_valid (length (const_net (target_model agent0) board0 1))) [0, 2] \<and>
   md5_contract length_digest \<and> grid15 (hashtable agent0) \<and>
   (\<exists>c. BehaviorPolicy const_net length_digest agent0 sim0 board0 1 [0, 2] = Inr c \<and>
      outcomes c \<noteq> {} \<and> outcomes c \<subseteq> set [0, 2]) \<and>
   (\<exists>a. EstimatePolicy const_net agent0 board0 1 [0, 2] = Inr a \<and> a \<in> set [0, 2])"
proof -
  note th = policies_return_legal_action
      [where valid_action = "[0, 2]" and q = const_net and s = agent0 and state = board0
        and turn = 1 and H = length_digest and simulateNextState = sim0,
        OF agent0_legal(1) agent0_legal(2) md5_contract_length_digest agent0_legal(3)]
  from th have a: "\<exists>c. BehaviorPolicy const_net length_digest agent0 sim0 board0 1 [0, 2] = Inr c \<and>
      outcomes c \<noteq> {} \<and> outcomes c \<subseteq> set [0, 2]"
    by (rule conjunct1)
  from th have b: "\<exists>a. EstimatePolicy const_net agent0 board0 1 [0, 2] = Inr a \<and> a \<in> set [0, 2]"
    by (rule conjunct2)
  from agent0_legal md5_contract_length_digest a b show ?thesis by (intro conjI)
qed

text \<open>
  C7. The estimate policy reads the values of the legal actions through a boolean mask,
  that is in the order of the action indices, and uses the position of the largest one
  as a position in the list of legal actions. With the values 0.1, 0.9, 0.3 and the
  legal actions [0, 2] it returns action 2. With the same legal actions listed as
  [2, 0] it returns action 0, whose value 0.1 is below the value 0.3 of the legal
  action 2.
\<close>

theorem EstimatePolicy_order_of_legal_actions:
  "const_net (target_model agent0) st t = [1 / 10, 9 / 10, 3 / 10] \<and>
   EstimatePolicy const_net agent0 st t [0, 2] = Inr 2 \<and>
   EstimatePolicy const_net agent0 st t [2, 0] = Inr 0"
  by (simp add: EstimatePolicy_def predict_def const_net_def agent0_def np_index_def
      masked_def argmax_def list_item_def)

section \<open>The fingerprint\<close>

text \<open>
  C8. The string that \<open>_Gethash\<close> digests is the concatenation of the renderings of
  the rows, each with its brackets and the blanks between the cells. For the board with
  the four centre cells occupied it is not the string of the 64 cells joined with
  nothing between them.
\<close>

theorem Gethash_digests_rendered_rows:
  "Gethash H board0 =
     H (''[0 0 0 0 0 0 0 0][0 0 0 0 0 0 0 0][0 0 0 0 0 0 0 0]'' @
        ''[0 0 0 1 2 0 0 0][0 0 0 2 1 0 0 0][0 0 0 0 0 0 0 0]'' @
        ''[0 0 0 0 0 0 0 0][0 0 0 0 0 0 0 0]'') \<and>
   cell_string board0 =
     ''0000000000000000000000000001200000021000000000000000000000000000'' \<and>
   combined_string board0 \<noteq> cell_string board0"
  by (simp add: Gethash_def combined_string_def cell_string_def board0_def np_str_row_def
      str_int_def str_nat.simps rjust_def)

section \<open>The training step on a sampled batch\<close>

lemma nths_cong_index:
  assumes "\<forall>i<length xs. (i \<in> A) = (i \<in> B)"
  shows "nths xs A = nths xs B"
proof -
  have "filter (\<lambda>p. snd p \<in> A) (zip xs [0..<length xs]) =
        filter (\<lambda>p. snd p \<in> B) (zip xs [0..<length xs])"
    using assms by (intro filter_cong refl) (auto dest: set_zip_rightD)
  then show ?thesis by (simp add: nths_def)
qed

lemma nths_delete_middle:
  assumes "\<forall>e\<in>set ds. e < length pre"
  shows "nths (pre @ post) {i. i \<notin> set ds} =
         nths (pre @ x # post) {i. i \<notin> set (length pre # ds)}"
proof -
  have above: "j + length pre \<notin> set ds" for j
    using assms by auto
  have pre: "nths pre {i. i \<notin> set ds} = nths pre {i. i \<notin> set (length pre # ds)}"
    by (rule nths_cong_index) simp
  have u1: "{j. j + length pre \<notin> set ds} = UNIV"
    using above by auto
  have u2: "{j. Suc j + length pre \<notin> set (length pre # ds)} = UNIV"
    using above [of "Suc _"] by auto
  have z: "0 + length pre \<in> set (length pre # ds)" by simp
  have "nths (pre @ x # post) {i. i \<notin> set (length pre # ds)} =
          nths pre {i. i \<notin> set (length pre # ds)} @
          nths (x # post) {j. j + length pre \<in> {i. i \<notin> set (length pre # ds)}}"
    by (rule nths_append)
  also have "nths (x # post) {j. j + length pre \<in> {i. i \<notin> set (length pre # ds)}} =
          nths post {j. Suc j + length pre \<notin> set (length pre # ds)}"
    using z by (simp add: nths_Cons)
  also have "\<dots> = post"
    unfolding u2 by (simp add: nths_all)
  finally have r: "nths (pre @ x # post) {i. i \<notin> set (length pre # ds)} =
      nths pre {i. i \<notin> set (length pre # ds)} @ post" .
  have "nths (pre @ post) {i. i \<notin> set ds} =
          nths pre {i. i \<notin> set ds} @ nths post {j. j + length pre \<in> {i. i \<notin> set ds}}"
    by (rule nths_append)
  also have "nths post {j. j + length pre \<in> {i. i \<notin> set ds}} = post"
    using u1 by (simp add: nths_all)
  finally show ?thesis using pre r by simp
qed

lemma nths_delete_top:
  assumes "d < length xs" and "\<forall>e\<in>set ds. e < d"
  shows "nths (take d xs @ drop (Suc d) xs) {i. i \<notin> set ds} = nths xs {i. i \<notin> set (d # ds)}"
proof -
  have l: "length (take d xs) = d" using assms(1) by simp
  have "nths (take d xs @ drop (Suc d) xs) {i. i \<notin> set ds} =
        nths (take d xs @ xs ! d # drop (Suc d) xs) {i. i \<notin> set (length (take d xs) # ds)}"
    by (rule nths_delete_middle) (use assms in auto)
  then show ?thesis
    unfolding l id_take_nth_drop [OF assms(1), symmetric] .
qed

lemma del_items_descending:
  assumes "sorted_wrt (>) ds" and "\<forall>d\<in>set ds. d < length xs"
  shows "del_items ds xs = Inr (nths xs {i. i \<notin> set ds}) \<and>
         length (nths xs {i. i \<notin> set ds}) = length xs - length ds"
  using assms
proof (induction ds arbitrary: xs)
  case Nil
  then show ?case by (simp add: nths_all)
next
  case (Cons d ds)
  let ?xs' = "take d xs @ drop (Suc d) xs"
  from Cons.prems have d: "d < length xs" and lower: "\<forall>e\<in>set ds. e < d"
    and srt: "sorted_wrt (>) ds"
    by auto
  have len: "length ?xs' = length xs - 1" using d by simp
  have "\<forall>e\<in>set ds. e < length ?xs'"
    using lower d len by auto
  from Cons.IH [OF srt this]
  have ih: "del_items ds ?xs' = Inr (nths ?xs' {i. i \<notin> set ds})"
    "length (nths ?xs' {i. i \<notin> set ds}) = length ?xs' - length ds"
    by simp_all
  have eq: "nths ?xs' {i. i \<notin> set ds} = nths xs {i. i \<notin> set (d # ds)}"
    by (rule nths_delete_top [OF d lower])
  have "del_items (d # ds) xs = Inr (nths xs {i. i \<notin> set (d # ds)})"
    using d ih(1) eq by (simp add: del_item_def)
  moreover have "length (nths xs {i. i \<notin> set (d # ds)}) = length xs - length (d # ds)"
    using ih(2) eq len by simp
  ultimately show ?case by simp
qed

lemma del_items_sample:
  assumes "is_sample (length xs) k idxs"
  shows "del_items (rev (sort idxs)) xs = Inr (nths xs {i. i \<notin> set idxs}) \<and>
         length (nths xs {i. i \<notin> set idxs}) = length xs - k"
proof -
  from assms have k: "length idxs = k" and dist: "distinct idxs"
    and bnd: "\<forall>i\<in>set idxs. i < length xs"
    by (simp_all add: is_sample_def list_all_iff)
  have "sorted_wrt (<) (sort idxs)"
    using dist by (simp add: strict_sorted_iff)
  then have "sorted_wrt (>) (rev (sort idxs))"
    by (simp add: sorted_wrt_rev)
  moreover have "\<forall>d\<in>set (rev (sort idxs)). d < length xs"
    using bnd by simp
  ultimately have "del_items (rev (sort idxs)) xs =
      Inr (nths xs {i. i \<notin> set (rev (sort idxs))}) \<and>
      length (nths xs {i. i \<notin> set (rev (sort idxs))}) = length xs - length (rev (sort idxs))"
    by (rule del_items_descending)
  then show ?thesis using k by simp
qed

lemma amax_map:
  assumes "vs \<noteq> []"
  shows "amax (map f vs) = Inr (Max (f ` set vs))"
proof -
  from assms obtain v rest where vs: "vs = v # rest" by (cases vs) auto
  have "Max (set (map f (v # rest))) = fold max (map f rest) (f v)"
    using Max.set_eq_fold [of "f v" "map f rest"] by simp
  then show ?thesis by (simp add: vs amax_def)
qed

lemma target_value_ok:
  assumes "\<not> t_done tr \<longrightarrow>
             t_valid_actions tr \<noteq> [] \<and> list_all (np_valid (length qrow)) (t_valid_actions tr)"
  shows "target_value g tr qrow =
           Inr (if t_done tr then t_reward tr / 100
                else t_reward tr / 100 + g * Max (np_item qrow ` set (t_valid_actions tr)))"
proof (cases "t_done tr")
  case True
  then show ?thesis by (simp add: target_value_def)
next
  case False
  with assms have ne: "t_valid_actions tr \<noteq> []"
    and ok: "list_all (np_valid (length qrow)) (t_valid_actions tr)"
    by simp_all
  show ?thesis
    using False take_indices_valid [OF ok] amax_map [OF ne, of "np_item qrow"]
    by (simp add: target_value_def)
qed


lemma train_loop_result:
  assumes "md5_contract H" and "grid15 tbl" and "distinct is"
    and "\<forall>i\<in>set is. i < length target \<and>
           np_valid (length (target ! i)) (t_action (mb ! i)) \<and>
           target_value g (mb ! i) (Q ! i) = Inr (v i)"
  shows "\<exists>target' tbl'. train_loop H g mb Q is target tbl = Inr (target', tbl') \<and>
           grid15 tbl' \<and> length target' = length target \<and>
           (\<forall>k<length target.
              target' ! k =
                (if k \<in> set is
                 then (target ! k)[np_pos (length (target ! k)) (t_action (mb ! k)) := v k]
                 else target ! k))"
  using assms(2,3,4)
proof (induction "is" arbitrary: target tbl)
  case Nil
  then show ?case by simp
next
  case (Cons i "is")
  let ?j = "np_pos (length (target ! i)) (t_action (mb ! i))"
  let ?t1 = "target[i := (target ! i)[?j := v i]]"
  from Cons.prems(3) have i: "i < length target"
    and va: "np_valid (length (target ! i)) (t_action (mb ! i))"
    and tv: "target_value g (mb ! i) (Q ! i) = Inr (v i)"
    by simp_all
  from Cons.prems(2) have ni: "i \<notin> set is" and dist: "distinct is" by simp_all
  from np_index_valid(1) [OF va]
  have idx: "np_index (length (target ! i)) (t_action (mb ! i)) = Inr ?j" .
  from InsertHashTable_stored [OF assms(1) Cons.prems(1), of "t_state (mb ! i)"]
  obtain tbl1 where t1: "InsertHashTable H tbl (t_state (mb ! i)) = Inr tbl1" "grid15 tbl1"
    by blast
  have step: "train_loop H g mb Q (i # is) target tbl = train_loop H g mb Q is ?t1 tbl1"
    using tv idx t1(1) by simp
  have pre: "\<forall>k\<in>set is. k < length ?t1 \<and>
           np_valid (length (?t1 ! k)) (t_action (mb ! k)) \<and>
           target_value g (mb ! k) (Q ! k) = Inr (v k)"
  proof
    fix k assume k: "k \<in> set is"
    with ni have "k \<noteq> i" by auto
    then have "?t1 ! k = target ! k" by simp
    with Cons.prems(3) k show "k < length ?t1 \<and>
           np_valid (length (?t1 ! k)) (t_action (mb ! k)) \<and>
           target_value g (mb ! k) (Q ! k) = Inr (v k)"
      by simp
  qed
  from Cons.IH [OF t1(2) dist pre]
  obtain target' tbl' where r: "train_loop H g mb Q is ?t1 tbl1 = Inr (target', tbl')"
    "grid15 tbl'" "length target' = length ?t1"
    and rows: "\<And>k. k < length ?t1 \<Longrightarrow> target' ! k =
                (if k \<in> set is
                 then (?t1 ! k)[np_pos (length (?t1 ! k)) (t_action (mb ! k)) := v k]
                 else ?t1 ! k)"
    by blast
  have "target' ! k =
          (if k \<in> set (i # is)
           then (target ! k)[np_pos (length (target ! k)) (t_action (mb ! k)) := v k]
           else target ! k)"
    if k: "k < length target" for k
  proof (cases "k = i")
    case True
    with rows [of k] k ni show ?thesis by simp
  next
    case False
    then have "?t1 ! k = target ! k" by simp
    with rows [of k] k False show ?thesis by simp
  qed
  with step r show ?case by simp
qed

lemma predict_rows:
  assumes "i < length mb"
  shows "predict q net (map t_state mb) (map t_turn mb) ! i = q net (t_state (mb ! i)) (t_turn (mb ! i))"
    and "predict q net (map t_next_state mb) (map t_turn mb) ! i =
           q net (t_next_state (mb ! i)) (t_turn (mb ! i))"
  using assms by (simp_all add: predict_def)

lemma length_predict:
  "length (predict q net (map f mb) (map t_turn mb)) = length mb"
  by (simp add: predict_def)

lemma train_result:
  assumes ge: "batch_size s \<le> int (length (replay_buffer s))" and nn: "0 \<le> batch_size s"
    and smp: "is_sample (length (replay_buffer s)) (nat (batch_size s)) idxs"
    and H: "md5_contract H" and g: "grid15 (hashtable s)"
    and ok: "\<forall>i\<in>set idxs. transition_ok q s (replay_buffer s ! i)"
  shows "\<exists>target tbl'.
           grid15 tbl' \<and> length target = nat (batch_size s) \<and>
           (\<forall>k<nat (batch_size s).
              target ! k =
                (q (model s) (t_state (replay_buffer s ! (idxs ! k)))
                   (t_turn (replay_buffer s ! (idxs ! k))))
                [np_pos (length (q (model s) (t_state (replay_buffer s ! (idxs ! k)))
                                   (t_turn (replay_buffer s ! (idxs ! k)))))
                   (t_action (replay_buffer s ! (idxs ! k))) :=
                 (if t_done (replay_buffer s ! (idxs ! k))
                  then t_reward (replay_buffer s ! (idxs ! k)) / 100
                  else t_reward (replay_buffer s ! (idxs ! k)) / 100 +
                       gamma s *
                       Max (np_item (q (target_model s)
                                       (t_next_state (replay_buffer s ! (idxs ! k)))
                                       (t_turn (replay_buffer s ! (idxs ! k)))) `
                            set (t_valid_actions (replay_buffer s ! (idxs ! k)))))]) \<and>
           train q tob H idxs s =
             Inr (Some (snd (tob (model s)
                           (map t_state (map (\<lambda>i. replay_buffer s ! i) idxs))
                           (map t_turn (map (\<lambda>i. replay_buffer s ! i) idxs)) target)),
                  s\<lparr>model := fst (tob (model s)
                           (map t_state (map (\<lambda>i. replay_buffer s ! i) idxs))
                           (map t_turn (map (\<lambda>i. replay_buffer s ! i) idxs)) target),
                    hashtable := tbl',
                    replay_buffer := nths (replay_buffer s) {i. i \<notin> set idxs}\<rparr>)"
proof -
  define mb where "mb = map (\<lambda>i. replay_buffer s ! i) idxs"
  define B where "B = nat (batch_size s)"
  define target0 where "target0 = predict q (model s) (map t_state mb) (map t_turn mb)"
  define Q where "Q = predict q (target_model s) (map t_next_state mb) (map t_turn mb)"
  define v where "v = (\<lambda>k. if t_done (mb ! k) then t_reward (mb ! k) / 100
      else t_reward (mb ! k) / 100 +
           gamma s * Max (np_item (Q ! k) ` set (t_valid_actions (mb ! k))))"
  from smp have li: "length idxs = B"
    by (simp add: is_sample_def B_def)
  then have lm: "length mb = B" by (simp add: mb_def)
  have mbk: "mb ! k = replay_buffer s ! (idxs ! k)" if "k < B" for k
    using that li by (simp add: mb_def)
  have okk: "transition_ok q s (mb ! k)" if "k < B" for k
    using that ok li mbk [OF that] by simp
  have l0: "length target0 = B" by (simp add: target0_def length_predict lm)
  have t0k: "target0 ! k = q (model s) (t_state (mb ! k)) (t_turn (mb ! k))" if "k < B" for k
    using that lm by (simp add: target0_def predict_rows)
  have Qk: "Q ! k = q (target_model s) (t_next_state (mb ! k)) (t_turn (mb ! k))" if "k < B" for k
    using that lm by (simp add: Q_def predict_rows)
  have pre: "\<forall>i\<in>set [0..<B]. i < length target0 \<and>
           np_valid (length (target0 ! i)) (t_action (mb ! i)) \<and>
           target_value (gamma s) (mb ! i) (Q ! i) = Inr (v i)"
  proof
    fix i assume "i \<in> set [0..<B]"
    then have i: "i < B" by simp
    from okk [OF i] have a: "np_valid (length (target0 ! i)) (t_action (mb ! i))"
      and b: "\<not> t_done (mb ! i) \<longrightarrow> t_valid_actions (mb ! i) \<noteq> [] \<and>
               list_all (np_valid (length (Q ! i))) (t_valid_actions (mb ! i))"
      by (simp_all add: transition_ok_def t0k [OF i] Qk [OF i])
    from target_value_ok [OF b, of "gamma s"]
    have "target_value (gamma s) (mb ! i) (Q ! i) = Inr (v i)"
      by (simp add: v_def)
    with a i l0 show "i < length target0 \<and>
           np_valid (length (target0 ! i)) (t_action (mb ! i)) \<and>
           target_value (gamma s) (mb ! i) (Q ! i) = Inr (v i)"
      by simp
  qed
  from train_loop_result [OF H g distinct_upt pre]
  obtain target tbl' where
    tl: "train_loop H (gamma s) mb Q [0..<B] target0 (hashtable s) = Inr (target, tbl')"
    and g': "grid15 tbl'" and lt: "length target = length target0"
    and rows: "\<And>k. k < length target0 \<Longrightarrow> target ! k =
                (if k \<in> set [0..<B]
                 then (target0 ! k)[np_pos (length (target0 ! k)) (t_action (mb ! k)) := v k]
                 else target0 ! k)"
    by blast
  from del_items_sample [OF smp]
  have del: "del_items (rev (sort idxs)) (replay_buffer s) =
               Inr (nths (replay_buffer s) {i. i \<notin> set idxs})"
    by simp
  have row: "target ! k =
                (q (model s) (t_state (replay_buffer s ! (idxs ! k)))
                   (t_turn (replay_buffer s ! (idxs ! k))))
                [np_pos (length (q (model s) (t_state (replay_buffer s ! (idxs ! k)))
                                   (t_turn (replay_buffer s ! (idxs ! k)))))
                   (t_action (replay_buffer s ! (idxs ! k))) :=
                 (if t_done (replay_buffer s ! (idxs ! k))
                  then t_reward (replay_buffer s ! (idxs ! k)) / 100
                  else t_reward (replay_buffer s ! (idxs ! k)) / 100 +
                       gamma s *
                       Max (np_item (q (target_model s)
                                       (t_next_state (replay_buffer s ! (idxs ! k)))
                                       (t_turn (replay_buffer s ! (idxs ! k)))) `
                            set (t_valid_actions (replay_buffer s ! (idxs ! k)))))]"
    if k: "k < B" for k
  proof -
    from rows [of k] k l0
    have "target ! k = (target0 ! k)[np_pos (length (target0 ! k)) (t_action (mb ! k)) := v k]"
      by simp
    then show ?thesis
      unfolding v_def t0k [OF k] Qk [OF k] mbk [OF k] .
  qed
  have tr: "train q tob H idxs s =
             Inr (Some (snd (tob (model s) (map t_state mb) (map t_turn mb) target)),
                  s\<lparr>model := fst (tob (model s) (map t_state mb) (map t_turn mb) target),
                    hashtable := tbl',
                    replay_buffer := nths (replay_buffer s) {i. i \<notin> set idxs}\<rparr>)"
    using ge nn tl del
    by (simp add: train_def Let_def mb_def [symmetric] B_def [symmetric]
        target0_def [symmetric] Q_def [symmetric] split_beta)
  show ?thesis
  proof (intro exI [of _ target] exI [of _ tbl'] conjI allI impI)
    show "grid15 tbl'" by (rule g')
    show "length target = nat (batch_size s)" using lt l0 by (simp add: B_def)
    show "train q tob H idxs s =
             Inr (Some (snd (tob (model s)
                           (map t_state (map (\<lambda>i. replay_buffer s ! i) idxs))
                           (map t_turn (map (\<lambda>i. replay_buffer s ! i) idxs)) target)),
                  s\<lparr>model := fst (tob (model s)
                           (map t_state (map (\<lambda>i. replay_buffer s ! i) idxs))
                           (map t_turn (map (\<lambda>i. replay_buffer s ! i) idxs)) target),
                    hashtable := tbl',
                    replay_buffer := nths (replay_buffer s) {i. i \<notin> set idxs}\<rparr>)"
      using tr unfolding mb_def .
  next
    fix k assume "k < nat (batch_size s)"
    then have "k < B" by (simp add: B_def)
    then show "target ! k =
                (q (model s) (t_state (replay_buffer s ! (idxs ! k)))
                   (t_turn (replay_buffer s ! (idxs ! k))))
                [np_pos (length (q (model s) (t_state (replay_buffer s ! (idxs ! k)))
                                   (t_turn (replay_buffer s ! (idxs ! k)))))
                   (t_action (replay_buffer s ! (idxs ! k))) :=
                 (if t_done (replay_buffer s ! (idxs ! k))
                  then t_reward (replay_buffer s ! (idxs ! k)) / 100
                  else t_reward (replay_buffer s ! (idxs ! k)) / 100 +
                       gamma s *
                       Max (np_item (q (target_model s)
                                       (t_next_state (replay_buffer s ! (idxs ! k)))
                                       (t_turn (replay_buffer s ! (idxs ! k)))) `
                            set (t_valid_actions (replay_buffer s ! (idxs ! k)))))]"
      by (rule row)
  qed
qed


text \<open>
  C1. When the replay buffer holds at least \<open>batch_size\<close> transitions and the sampled
  transitions can be processed, the matrix that \<open>train\<close> hands to \<open>train_on_batch\<close>
  has one row for each sampled transition: the prediction of the online network on the
  state and turn of the transition, with the slot of the taken action overwritten and
  nothing else. The new entry is \<open>reward / 100\<close> for a terminal transition, and
  otherwise \<open>reward / 100 + gamma * m\<close> where \<open>m\<close> is the largest prediction of the
  target network, on the next state and the same turn, among the legal next actions.
\<close>

theorem train_target_matrix:
  assumes "batch_size s \<le> int (length (replay_buffer s))" and "0 \<le> batch_size s"
    and "is_sample (length (replay_buffer s)) (nat (batch_size s)) minibatch_indices"
    and "md5_contract H" and "grid15 (hashtable s)"
    and "\<forall>i\<in>set minibatch_indices. transition_ok q s (replay_buffer s ! i)"
  shows "\<exists>target tbl'.
           length target = nat (batch_size s) \<and>
           (\<forall>k<nat (batch_size s).
              target ! k =
                (q (model s) (t_state (replay_buffer s ! (minibatch_indices ! k)))
                   (t_turn (replay_buffer s ! (minibatch_indices ! k))))
                [np_pos (length (q (model s) (t_state (replay_buffer s ! (minibatch_indices ! k)))
                                   (t_turn (replay_buffer s ! (minibatch_indices ! k)))))
                   (t_action (replay_buffer s ! (minibatch_indices ! k))) :=
                 (if t_done (replay_buffer s ! (minibatch_indices ! k))
                  then t_reward (replay_buffer s ! (minibatch_indices ! k)) / 100
                  else t_reward (replay_buffer s ! (minibatch_indices ! k)) / 100 +
                       gamma s *
                       Max (np_item (q (target_model s)
                                       (t_next_state (replay_buffer s ! (minibatch_indices ! k)))
                                       (t_turn (replay_buffer s ! (minibatch_indices ! k)))) `
                            set (t_valid_actions (replay_buffer s ! (minibatch_indices ! k)))))]) \<and>
           train q tob H minibatch_indices s =
             Inr (Some (snd (tob (model s)
                           (map t_state (map (\<lambda>i. replay_buffer s ! i) minibatch_indices))
                           (map t_turn (map (\<lambda>i. replay_buffer s ! i) minibatch_indices))
                           target)),
                  s\<lparr>model := fst (tob (model s)
                           (map t_state (map (\<lambda>i. replay_buffer s ! i) minibatch_indices))
                           (map t_turn (map (\<lambda>i. replay_buffer s ! i) minibatch_indices))
                           target),
                    hashtable := tbl',
                    replay_buffer := nths (replay_buffer s) {i. i \<notin> set minibatch_indices}\<rparr>)"
proof -
  note th = train_result
    [where s = s and idxs = minibatch_indices and H = H and q = q and tob = tob, OF assms]
  from th show ?thesis
  proof (elim exE conjE)
    fix target tbl'
    assume "length target = nat (batch_size s)"
      and "\<forall>k<nat (batch_size s).
              target ! k =
                (q (model s) (t_state (replay_buffer s ! (minibatch_indices ! k)))
                   (t_turn (replay_buffer s ! (minibatch_indices ! k))))
                [np_pos (length (q (model s) (t_state (replay_buffer s ! (minibatch_indices ! k)))
                                   (t_turn (replay_buffer s ! (minibatch_indices ! k)))))
                   (t_action (replay_buffer s ! (minibatch_indices ! k))) :=
                 (if t_done (replay_buffer s ! (minibatch_indices ! k))
                  then t_reward (replay_buffer s ! (minibatch_indices ! k)) / 100
                  else t_reward (replay_buffer s ! (minibatch_indices ! k)) / 100 +
                       gamma s *
                       Max (np_item (q (target_model s)
                                       (t_next_state (replay_buffer s ! (minibatch_indices ! k)))
                                       (t_turn (replay_buffer s ! (minibatch_indices ! k)))) `
                            set (t_valid_actions (replay_buffer s ! (minibatch_indices ! k)))))]"
      and "train q tob H minibatch_indices s =
             Inr (Some (snd (tob (model s)
                           (map t_state (map (\<lambda>i. replay_buffer s ! i) minibatch_indices))
                           (map t_turn (map (\<lambda>i. replay_buffer s ! i) minibatch_indices))
                           target)),
                  s\<lparr>model := fst (tob (model s)
                           (map t_state (map (\<lambda>i. replay_buffer s ! i) minibatch_indices))
                           (map t_turn (map (\<lambda>i. replay_buffer s ! i) minibatch_indices))
                           target),
                    hashtable := tbl',
                    replay_buffer := nths (replay_buffer s) {i. i \<notin> set minibatch_indices}\<rparr>)"
    then show ?thesis
      by (intro exI [of _ target] exI [of _ tbl'] conjI)
  qed
qed

text \<open>
  C3. When the replay buffer holds at least \<open>batch_size\<close> transitions, and
  \<open>minibatch_indices\<close> is a sample of \<open>batch_size\<close> distinct indices of the buffer,
  \<open>train\<close> returns a loss and deletes the sampled entries, largest index first: the
  buffer afterwards holds the entries at the other indices, in their order, and is
  shorter by \<open>batch_size\<close>.
\<close>

theorem train_consumes_sample:
  assumes "batch_size s \<le> int (length (replay_buffer s))" and "0 \<le> batch_size s"
    and "is_sample (length (replay_buffer s)) (nat (batch_size s)) minibatch_indices"
    and "md5_contract H" and "grid15 (hashtable s)"
    and "\<forall>i\<in>set minibatch_indices. transition_ok q s (replay_buffer s ! i)"
  shows "\<exists>loss s'. train q tob H minibatch_indices s = Inr (Some loss, s') \<and>
           del_items (rev (sort minibatch_indices)) (replay_buffer s) = Inr (replay_buffer s') \<and>
           replay_buffer s' = nths (replay_buffer s) {i. i \<notin> set minibatch_indices} \<and>
           length (replay_buffer s') = length (replay_buffer s) - nat (batch_size s)"
proof -
  note th = train_result
    [where s = s and idxs = minibatch_indices and H = H and q = q and tob = tob, OF assms]
  note del = del_items_sample [OF assms(3)]
  from th show ?thesis
  proof (elim exE conjE)
    fix target tbl'
    let ?loss = "snd (tob (model s)
                           (map t_state (map (\<lambda>i. replay_buffer s ! i) minibatch_indices))
                           (map t_turn (map (\<lambda>i. replay_buffer s ! i) minibatch_indices))
                           target)"
    let ?s' = "s\<lparr>model := fst (tob (model s)
                           (map t_state (map (\<lambda>i. replay_buffer s ! i) minibatch_indices))
                           (map t_turn (map (\<lambda>i. replay_buffer s ! i) minibatch_indices))
                           target),
                    hashtable := tbl',
                    replay_buffer := nths (replay_buffer s) {i. i \<notin> set minibatch_indices}\<rparr>"
    assume tr: "train q tob H minibatch_indices s = Inr (Some ?loss, ?s')"
    have b: "replay_buffer ?s' = nths (replay_buffer s) {i. i \<notin> set minibatch_indices}"
      by simp
    have "train q tob H minibatch_indices s = Inr (Some ?loss, ?s') \<and>
           del_items (rev (sort minibatch_indices)) (replay_buffer s) = Inr (replay_buffer ?s') \<and>
           replay_buffer ?s' = nths (replay_buffer s) {i. i \<notin> set minibatch_indices} \<and>
           length (replay_buffer ?s') = length (replay_buffer s) - nat (batch_size s)"
      unfolding b using tr del by (intro conjI) simp_all
    then show ?thesis
      by (intro exI [of _ ?loss] exI [of _ ?s'])
  qed
qed

lemma agent1_batch:
  "batch_size agent1 \<le> int (length (replay_buffer agent1))"
  "0 \<le> batch_size agent1"
  "is_sample (length (replay_buffer agent1)) (nat (batch_size agent1)) [1, 0]"
  "grid15 (hashtable agent1)"
  "\<forall>i\<in>set [1, 0]. transition_ok const_net agent1 (replay_buffer agent1 ! i)"
  by (simp_all add: agent1_def agent0_def is_sample_def grid15_init transition_ok_def
      np_valid_def const_net_def tr0_def tr1_def)

lemma agent1_transitions:
  "transition_ok const_net agent1 (replay_buffer agent1 ! 1)"
  "transition_ok const_net agent1 (replay_buffer agent1 ! 0)"
  using agent1_batch(5) by simp_all

theorem train_consumes_sample_witness:
  "batch_size agent1 \<le> int (length (replay_buffer agent1)) \<and> 0 \<le> batch_size agent1 \<and>
   is_sample (length (replay_buffer agent1)) (nat (batch_size agent1)) [1, 0] \<and>
   md5_contract length_digest \<and> grid15 (hashtable agent1) \<and>
   transition_ok const_net agent1 (replay_buffer agent1 ! 1) \<and>
   transition_ok const_net agent1 (replay_buffer agent1 ! 0) \<and>
   (\<exists>loss s'. train const_net tob0 length_digest [1, 0] agent1 = Inr (Some loss, s') \<and>
      replay_buffer s' = [tr2])"
proof -
  note th = train_consumes_sample
    [where s = agent1 and minibatch_indices = "[1, 0]" and H = length_digest
      and q = const_net and tob = tob0,
      OF agent1_batch(1) agent1_batch(2) agent1_batch(3) md5_contract_length_digest
        agent1_batch(4) agent1_batch(5)]
  have n: "nths (replay_buffer agent1) {i. i \<notin> set [1, 0]} = [tr2]"
    by (simp add: agent1_def nths_Cons)
  from th have "\<exists>loss s'. train const_net tob0 length_digest [1, 0] agent1 = Inr (Some loss, s') \<and>
      replay_buffer s' = [tr2]"
  proof (elim exE conjE)
    fix loss s'
    assume "train const_net tob0 length_digest [1, 0] agent1 = Inr (Some loss, s')"
      and "replay_buffer s' = nths (replay_buffer agent1) {i. i \<notin> set [1, 0]}"
    then show ?thesis unfolding n by (intro exI conjI)
  qed
  with agent1_batch agent1_transitions md5_contract_length_digest show ?thesis
    by (intro conjI)
qed

lemma list_of_two: "length xs = 2 \<Longrightarrow> xs = [xs ! 0, xs ! 1]"
  by (cases xs; cases "tl xs") auto

theorem train_target_matrix_witness:
  "batch_size agent1 \<le> int (length (replay_buffer agent1)) \<and> 0 \<le> batch_size agent1 \<and>
   is_sample (length (replay_buffer agent1)) (nat (batch_size agent1)) [1, 0] \<and>
   md5_contract length_digest \<and> grid15 (hashtable agent1) \<and>
   transition_ok const_net agent1 (replay_buffer agent1 ! 1) \<and>
   transition_ok const_net agent1 (replay_buffer agent1 ! 0) \<and>
   (\<exists>s'. train const_net tob1 length_digest [1, 0] agent1 = Inr (Some 0, s') \<and>
      model s' = [297 / 1000, 2, 3, 1, 5 / 2, 3])"
proof -
  note th = train_target_matrix
    [where s = agent1 and minibatch_indices = "[1, 0]" and H = length_digest
      and q = const_net and tob = tob1,
      OF agent1_batch(1) agent1_batch(2) agent1_batch(3) md5_contract_length_digest
        agent1_batch(4) agent1_batch(5)]
  from th have "\<exists>s'. train const_net tob1 length_digest [1, 0] agent1 = Inr (Some 0, s') \<and>
      model s' = [297 / 1000, 2, 3, 1, 5 / 2, 3]"
  proof (elim exE conjE)
    fix target :: "real list list" and tbl'
    assume len: "length target = nat (batch_size agent1)"
    assume rows: "\<forall>k<nat (batch_size agent1).
              target ! k =
                (const_net (model agent1) (t_state (replay_buffer agent1 ! ([1, 0] ! k)))
                   (t_turn (replay_buffer agent1 ! ([1, 0] ! k))))
                [np_pos (length (const_net (model agent1) (t_state (replay_buffer agent1 ! ([1, 0] ! k)))
                                   (t_turn (replay_buffer agent1 ! ([1, 0] ! k)))))
                   (t_action (replay_buffer agent1 ! ([1, 0] ! k))) :=
                 (if t_done (replay_buffer agent1 ! ([1, 0] ! k))
                  then t_reward (replay_buffer agent1 ! ([1, 0] ! k)) / 100
                  else t_reward (replay_buffer agent1 ! ([1, 0] ! k)) / 100 +
                       gamma agent1 *
                       Max (np_item (const_net (target_model agent1)
                                       (t_next_state (replay_buffer agent1 ! ([1, 0] ! k)))
                                       (t_turn (replay_buffer agent1 ! ([1, 0] ! k)))) `
                            set (t_valid_actions (replay_buffer agent1 ! ([1, 0] ! k)))))]"
    assume tr: "train const_net tob1 length_digest [1, 0] agent1 =
             Inr (Some (snd (tob1 (model agent1)
                           (map t_state (map (\<lambda>i. replay_buffer agent1 ! i) [1, 0]))
                           (map t_turn (map (\<lambda>i. replay_buffer agent1 ! i) [1, 0]))
                           target)),
                  agent1\<lparr>model := fst (tob1 (model agent1)
                           (map t_state (map (\<lambda>i. replay_buffer agent1 ! i) [1, 0]))
                           (map t_turn (map (\<lambda>i. replay_buffer agent1 ! i) [1, 0]))
                           target),
                    hashtable := tbl',
                    replay_buffer := nths (replay_buffer agent1) {i. i \<notin> set [1, 0]}\<rparr>)"
    have b: "(0::nat) < nat (batch_size agent1)" "(1::nat) < nat (batch_size agent1)"
      by (simp_all add: agent1_def agent0_def)
    from rows b(1) have r0: "target ! 0 = [297 / 1000, 2, 3]"
      by (simp add: agent1_def agent0_def const_net_def tr1_def np_pos_def np_item_def)
    from rows b(2) have r1: "target ! 1 = [1, 5 / 2, 3]"
      by (simp add: agent1_def agent0_def const_net_def tr0_def np_pos_def np_item_def)
    from len have "length target = 2" by (simp add: agent1_def agent0_def)
    from list_of_two [OF this] r0 r1 have t: "target = [[297 / 1000, 2, 3], [1, 5 / 2, 3]]"
      by simp
    show ?thesis
      unfolding tr t by (simp add: tob1_def)
  qed
  with agent1_batch agent1_transitions md5_contract_length_digest show ?thesis
    by (intro conjI)
qed

section \<open>The estimate policy on ascending lists of legal actions\<close>

lemma set_mask_entries:
  assumes "\<forall>a\<in>set vs. 0 \<le> a \<and> a < int (length m)"
  shows "\<exists>m'. set_mask m vs = Inr m' \<and> length m' = length m \<and>
           (\<forall>i<length m. m' ! i = (m ! i \<or> int i \<in> set vs))"
  using assms
proof (induction vs arbitrary: m)
  case Nil
  then show ?case by simp
next
  case (Cons a vs)
  from Cons.prems have a: "0 \<le> a" "a < int (length m)" by simp_all
  then have idx: "np_index (length m) a = Inr (nat a)"
    by (simp add: np_index_def)
  have "\<forall>b\<in>set vs. 0 \<le> b \<and> b < int (length (m[nat a := True]))"
    using Cons.prems by simp
  from Cons.IH [OF this]
  obtain m' where m': "set_mask (m[nat a := True]) vs = Inr m'"
    "length m' = length (m[nat a := True])"
    and e: "\<And>i. i < length (m[nat a := True]) \<Longrightarrow>
              m' ! i = ((m[nat a := True]) ! i \<or> int i \<in> set vs)"
    by blast
  have "m' ! i = (m ! i \<or> int i \<in> set (a # vs))" if i: "i < length m" for i
  proof (cases "i = nat a")
    case True
    with e [of i] i a show ?thesis by simp
  next
    case False
    with a have "int i \<noteq> a" by auto
    with e [of i] i False show ?thesis by auto
  qed
  moreover have "set_mask m (a # vs) = Inr m'" using idx m'(1) by simp
  moreover have "length m' = length m" using m'(2) by simp
  ultimately show ?case by blast
qed

lemma masked_nths:
  "length xs = length m \<Longrightarrow> masked xs m = nths xs {i. i < length m \<and> m ! i}"
proof (induction xs m rule: list_induct2)
  case Nil
  then show ?case by (simp add: masked_def)
next
  case (Cons x xs b m)
  have s: "{j. Suc j \<in> {i. i < length (b # m) \<and> (b # m) ! i}} = {i. i < length m \<and> m ! i}"
    by auto
  have z: "(0 \<in> {i. i < length (b # m) \<and> (b # m) ! i}) = b" by simp
  have "nths (x # xs) {i. i < length (b # m) \<and> (b # m) ! i} =
          (if b then [x] else []) @ nths xs {i. i < length m \<and> m ! i}"
    unfolding nths_Cons s z ..
  moreover have "masked (x # xs) (b # m) = (if b then [x] else []) @ masked xs m"
    by (simp add: masked_def)
  ultimately show ?case using Cons.IH by simp
qed

lemma nths_ascending:
  assumes "sorted_wrt (<) is" and "\<forall>i\<in>set is. i < length xs"
  shows "nths xs (set is) = map (nth xs) is"
  using assms
proof (induction "is" arbitrary: xs rule: rev_induct)
  case Nil
  then show ?case by simp
next
  case (snoc i "is")
  from snoc.prems(1) have srt: "sorted_wrt (<) is" and below: "\<forall>k\<in>set is. k < i"
    by (simp_all add: sorted_wrt_append)
  from snoc.prems(2) have i: "i < length xs" by simp
  let ?pre = "take i xs"
  have l: "length ?pre = i" using i by simp
  have ih: "nths ?pre (set is) = map (nth ?pre) is"
    by (rule snoc.IH [OF srt]) (use below l in simp)
  have m: "map (nth ?pre) is = map (nth xs) is"
    using below by (intro map_cong refl) simp
  have c: "nths ?pre (set (is @ [i])) = nths ?pre (set is)"
    by (rule nths_cong_index) (use l in auto)
  have u: "{j. Suc j + length ?pre \<in> set (is @ [i])} = {}"
    using below l by auto
  have z: "0 + length ?pre \<in> set (is @ [i])" using l by simp
  have "nths (?pre @ xs ! i # drop (Suc i) xs) (set (is @ [i])) =
          nths ?pre (set (is @ [i])) @
          nths (xs ! i # drop (Suc i) xs) {j. j + length ?pre \<in> set (is @ [i])}"
    by (rule nths_append)
  also have "nths (xs ! i # drop (Suc i) xs) {j. j + length ?pre \<in> set (is @ [i])} = [xs ! i]"
    using z u by (simp add: nths_Cons)
  finally have "nths xs (set (is @ [i])) = nths ?pre (set (is @ [i])) @ [xs ! i]"
    unfolding id_take_nth_drop [OF i, symmetric] .
  with c ih m show ?case by simp
qed

text \<open>
  On a strictly ascending list of legal actions the order of the mask is the order of
  the list, and the estimate policy returns the legal action of largest value, the first
  one in the list when several share it.
\<close>

lemma EstimatePolicy_ascending:
  assumes "valid_action \<noteq> []" and "sorted_wrt (<) valid_action"
    and "\<forall>a\<in>set valid_action. 0 \<le> a \<and> a < int (length (q (target_model s) state turn))"
  shows "\<exists>j<length valid_action.
           EstimatePolicy q s state turn valid_action = Inr (valid_action ! j) \<and>
           (\<forall>k<length valid_action.
              q (target_model s) state turn ! nat (valid_action ! k)
              \<le> q (target_model s) state turn ! nat (valid_action ! j)) \<and>
           (\<forall>k<j. q (target_model s) state turn ! nat (valid_action ! k)
                  < q (target_model s) state turn ! nat (valid_action ! j))"
proof -
  let ?qv = "q (target_model s) state turn"
  let ?n = "length ?qv"
  let ?m0 = "replicate ?n False"
  have "\<forall>a\<in>set valid_action. 0 \<le> a \<and> a < int (length ?m0)"
    using assms(3) by simp
  from set_mask_entries [OF this]
  obtain m where m: "set_mask ?m0 valid_action = Inr m" "length m = ?n"
    and e: "\<And>i. i < ?n \<Longrightarrow> m ! i = (int i \<in> set valid_action)"
    by auto
  have idx: "{i. i < length m \<and> m ! i} = set (map nat valid_action)"
  proof (rule set_eqI)
    fix i
    show "(i \<in> {i. i < length m \<and> m ! i}) = (i \<in> set (map nat valid_action))"
    proof
      assume "i \<in> {i. i < length m \<and> m ! i}"
      then have "int i \<in> set valid_action" using e [of i] m(2) by simp
      then have "nat (int i) \<in> nat ` set valid_action" by (rule imageI)
      then show "i \<in> set (map nat valid_action)" by simp
    next
      assume "i \<in> set (map nat valid_action)"
      then obtain a where a: "a \<in> set valid_action" "i = nat a" by auto
      with assms(3) have "0 \<le> a" "a < int ?n" by simp_all
      with a have "i < ?n" "int i = a" by simp_all
      with a(1) e [of i] m(2) show "i \<in> {i. i < length m \<and> m ! i}" by simp
    qed
  qed
  have srt: "sorted_wrt (<) (map nat valid_action)"
    unfolding sorted_wrt_map
    by (rule sorted_wrt_mono_rel [OF _ assms(2)]) (use assms(3) in auto)
  have bnd: "\<forall>i\<in>set (map nat valid_action). i < length ?qv"
    using assms(3) by auto
  have "masked ?qv m = nths ?qv {i. i < length m \<and> m ! i}"
    by (rule masked_nths) (simp add: m(2))
  also have "\<dots> = map (nth ?qv) (map nat valid_action)"
    unfolding idx by (rule nths_ascending [OF srt bnd])
  finally have mk: "masked ?qv m = map (\<lambda>a. ?qv ! nat a) valid_action"
    by (simp add: comp_def)
  have "map (\<lambda>a. ?qv ! nat a) valid_action \<noteq> []" using assms(1) by simp
  from argmax_spec [OF this]
  obtain j where j: "argmax (map (\<lambda>a. ?qv ! nat a) valid_action) = Inr j"
    "j < length valid_action"
    and mx: "\<forall>k<length valid_action. ?qv ! nat (valid_action ! k) \<le> ?qv ! nat (valid_action ! j)"
    and fst: "\<forall>k<j. ?qv ! nat (valid_action ! k) < ?qv ! nat (valid_action ! j)"
    by auto
  have "EstimatePolicy q s state turn valid_action = Inr (valid_action ! j)"
    using m(1) j(1,2) mk by (simp add: EstimatePolicy_def predict_single list_item_def)
  with j(2) mx fst show ?thesis by blast
qed

end
